theory Spec2Isabelle
  imports Main
begin

section \<open>Data model\<close>

text \<open>
  A position is a Python tuple \<open>(row, col)\<close> of unbounded integers; a direction is
  such a tuple too (\<open>UP = (-1, 0)\<close> and so on). A maze is a list of rows of integer
  cell markers (0 is free, anything else is a wall).
\<close>

type_synonym pos = "int \<times> int"

type_synonym maze = "int list list"

datatype error = IndexError | KeyError

text \<open>
  Class \<open>Node\<close>: \<open>parent\<close> is \<open>None\<close> or the node this one was expanded from,
  \<open>direction\<close> is \<open>None\<close> or the move that led here. The fields \<open>g\<close>, \<open>h\<close> and
  \<open>f\<close> of the source are \<open>gcost\<close>, \<open>hcost\<close> and \<open>fcost\<close>.
\<close>

datatype node =
  Node (parent: "node option") (position: pos) (direction: "pos option")
       (gcost: int) (hcost: int) (fcost: int)

text \<open>\<open>Node.__eq__\<close>: same position and same direction of arrival.\<close>

definition node_eq :: "node \<Rightarrow> node \<Rightarrow> bool" where
  "node_eq a b \<longleftrightarrow> position a = position b \<and> direction a = direction b"

text \<open>\<open>child in closed_list\<close>: some element equals the child under \<open>__eq__\<close>.\<close>

definition node_in :: "node \<Rightarrow> node list \<Rightarrow> bool" where
  "node_in child ns \<longleftrightarrow> list_ex (node_eq child) ns"

text \<open>Python's \<open>xs[i]\<close>: a negative index counts from the end, out of range raises.\<close>

definition getitem :: "'a list \<Rightarrow> int \<Rightarrow> error + 'a" where
  "getitem xs i =
     (if 0 \<le> i \<and> i < int (length xs) then Inr (xs ! nat i)
      else if i < 0 \<and> - int (length xs) \<le> i then Inr (xs ! nat (int (length xs) + i))
      else Inl IndexError)"

definition UP :: pos where "UP = (-1, 0)"
definition RIGHT :: pos where "RIGHT = (0, 1)"
definition DOWN :: pos where "DOWN = (1, 0)"
definition LEFT :: pos where "LEFT = (0, -1)"

definition DIRECTIONS :: "pos list" where
  "DIRECTIONS = [UP, RIGHT, DOWN, LEFT]"

text \<open>The dictionary \<open>turn_right_map\<close>; a missing key raises \<open>KeyError\<close>.\<close>

definition turn_right_map :: "pos \<rightharpoonup> pos" where
  "turn_right_map = [UP \<mapsto> RIGHT, RIGHT \<mapsto> DOWN, DOWN \<mapsto> LEFT, LEFT \<mapsto> UP]"

definition turn_right_lookup :: "pos \<Rightarrow> error + pos" where
  "turn_right_lookup d = (case turn_right_map d of None \<Rightarrow> Inl KeyError | Some t \<Rightarrow> Inr t)"

section \<open>The search of \<open>solution1.py\<close>\<close>

text \<open>
  The scan for the node to expand: it starts from \<open>open_list[0]\<close> and replaces the
  candidate only by an item of strictly smaller \<open>f\<close>.
\<close>

fun scan_min :: "(nat \<times> node) list \<Rightarrow> node \<times> nat \<Rightarrow> node \<times> nat" where
  "scan_min [] cur = cur"
| "scan_min ((index, item) # rest) (current_node, current_index) =
     (if fcost item < fcost current_node then scan_min rest (item, index)
      else scan_min rest (current_node, current_index))"

definition select_current :: "node list \<Rightarrow> node \<times> nat" where
  "select_current open_list = scan_min (enumerate 0 open_list) (open_list ! 0, 0)"

text \<open>\<open>open_list.pop(current_index)\<close>, for an index in range.\<close>

definition pop_at :: "nat \<Rightarrow> 'a list \<Rightarrow> 'a list" where
  "pop_at i xs = take i xs @ drop (Suc i) xs"

text \<open>Following the parent links from the goal node, collecting positions.\<close>

fun trace_back :: "node \<Rightarrow> pos list" where
  "trace_back (Node par p d g h f) =
     p # (case par of None \<Rightarrow> [] | Some n \<Rightarrow> trace_back n)"

text \<open>
  The moves tried from a node. From the start node (no direction) the source appends
  the four directions one by one; otherwise forward, then the right turn.
\<close>

definition possible_moves :: "pos option \<Rightarrow> error + pos list" where
  "possible_moves dir =
     (case dir of
        None \<Rightarrow> Inr (foldl (\<lambda>moves move_dir. moves @ [move_dir]) [] DIRECTIONS)
      | Some current_direction \<Rightarrow>
          (case turn_right_lookup current_direction of
             Inl e \<Rightarrow> Inl e
           | Inr turn_right_direction \<Rightarrow> Inr [current_direction, turn_right_direction]))"

text \<open>
  The range test \<open>0 <= r < len(maze) and 0 <= c < len(maze[0])\<close>: the second
  conjunct, with its read of \<open>maze[0]\<close>, is evaluated only when the first holds.
\<close>

definition within_range :: "maze \<Rightarrow> pos \<Rightarrow> error + bool" where
  "within_range maze np =
     (if 0 \<le> fst np \<and> fst np < int (length maze) then
        (case getitem maze 0 of
           Inl e \<Rightarrow> Inl e
         | Inr row0 \<Rightarrow> Inr (0 \<le> snd np \<and> snd np < int (length row0)))
      else Inr False)"

text \<open>\<open>maze[r][c]\<close>.\<close>

definition cell :: "maze \<Rightarrow> pos \<Rightarrow> error + int" where
  "cell maze np =
     (case getitem maze (fst np) of Inl e \<Rightarrow> Inl e | Inr row \<Rightarrow> getitem row (snd np))"

text \<open>The loop that builds \<open>children\<close> from the possible moves.\<close>

fun gen_children :: "maze \<Rightarrow> node \<Rightarrow> pos list \<Rightarrow> node list \<Rightarrow> error + node list" where
  "gen_children maze current_node [] children = Inr children"
| "gen_children maze current_node (move_direction # rest) children =
     (let node_position = (fst (position current_node) + fst move_direction,
                           snd (position current_node) + snd move_direction)
      in case within_range maze node_position of
           Inl e \<Rightarrow> Inl e
         | Inr False \<Rightarrow> gen_children maze current_node rest children
         | Inr True \<Rightarrow>
             (case cell maze node_position of
                Inl e \<Rightarrow> Inl e
              | Inr v \<Rightarrow>
                  if v \<noteq> 0 then gen_children maze current_node rest children
                  else gen_children maze current_node rest
                         (children @ [Node (Some current_node) node_position
                                        (Some move_direction) 0 0 0])))"

text \<open>
  The inner loop over the open list: is there an open node with the child's state
  whose \<open>g\<close> is not larger than the child's?
\<close>

definition is_in_open_list :: "node \<Rightarrow> node list \<Rightarrow> bool" where
  "is_in_open_list child open_list \<longleftrightarrow>
     list_ex (\<lambda>open_node. node_eq child open_node \<and> gcost child \<ge> gcost open_node) open_list"

text \<open>
  The loop over the children: a child whose state is closed is skipped, the others
  get their costs, and are appended to the open list unless an open node dominates
  them. The open list grows while the loop runs.
\<close>

fun process_children ::
  "pos \<Rightarrow> node \<Rightarrow> node list \<Rightarrow> node list \<Rightarrow> node list \<Rightarrow> node list" where
  "process_children end_pos current_node closed_list [] open_list = open_list"
| "process_children end_pos current_node closed_list (child # rest) open_list =
     (if node_in child closed_list
      then process_children end_pos current_node closed_list rest open_list
      else
        let child_g = gcost current_node + 1;
            child_h = \<bar>fst (position child) - fst end_pos\<bar> + \<bar>snd (position child) - snd end_pos\<bar>;
            child' = Node (parent child) (position child) (direction child)
                       child_g child_h (child_g + child_h)
        in if is_in_open_list child' open_list
           then process_children end_pos current_node closed_list rest open_list
           else process_children end_pos current_node closed_list rest (open_list @ [child']))"

text \<open>One pass through the body of the main loop, for a non-empty open list.\<close>

datatype outcome = Continue "node list" "node list" | Return "pos list" | Raise error

definition astar_iteration :: "maze \<Rightarrow> pos \<Rightarrow> node list \<Rightarrow> node list \<Rightarrow> outcome" where
  "astar_iteration maze end_pos open_list closed_list =
     (let (current_node, current_index) = select_current open_list;
          open_list' = pop_at current_index open_list;
          closed_list' = closed_list @ [current_node]
      in if position current_node = end_pos then Return (rev (trace_back current_node))
         else
           (case possible_moves (direction current_node) of
              Inl e \<Rightarrow> Raise e
            | Inr moves \<Rightarrow>
                (case gen_children maze current_node moves [] of
                   Inl e \<Rightarrow> Raise e
                 | Inr children \<Rightarrow>
                     Continue (process_children end_pos current_node closed_list' children open_list')
                              closed_list')))"

text \<open>
  The main loop. The result is \<open>None\<close> when the loop does not end, \<open>Some (Inl e)\<close>
  when an exception escapes, \<open>Some (Inr None)\<close> for the no-path result and
  \<open>Some (Inr (Some path))\<close> for a path.
\<close>

partial_function (option) astar_loop ::
  "maze \<Rightarrow> pos \<Rightarrow> node list \<Rightarrow> node list \<Rightarrow> (error + pos list option) option" where
  "astar_loop maze end_pos open_list closed_list =
     (if length open_list > 0 then
        (case astar_iteration maze end_pos open_list closed_list of
           Return path \<Rightarrow> Some (Inr (Some path))
         | Raise e \<Rightarrow> Some (Inl e)
         | Continue open_list' closed_list' \<Rightarrow> astar_loop maze end_pos open_list' closed_list')
      else Some (Inr None))"

declare astar_loop.simps [code]

definition start_node :: "pos \<Rightarrow> node" where
  "start_node start = Node None start None 0 0 0"

definition astar :: "maze \<Rightarrow> pos \<Rightarrow> pos \<Rightarrow> (error + pos list option) option" where
  "astar maze start end_pos = astar_loop maze end_pos [start_node start] []"

section \<open>The search of \<open>maze_solution_group_eltonys.py\<close>\<close>

text \<open>
  The second file has the same \<open>Node\<close> class and the same loops for the selection,
  the children and the open list, which the definitions above embed. Its one difference
  is that the start node's moves are the list \<open>DIRECTIONS\<close> itself.
\<close>

definition possible_moves_eltonys :: "pos option \<Rightarrow> error + pos list" where
  "possible_moves_eltonys dir =
     (case dir of
        None \<Rightarrow> Inr DIRECTIONS
      | Some current_direction \<Rightarrow>
          (case turn_right_lookup current_direction of
             Inl e \<Rightarrow> Inl e
           | Inr turn_right_direction \<Rightarrow> Inr [current_direction, turn_right_direction]))"

definition astar_iteration_eltonys :: "maze \<Rightarrow> pos \<Rightarrow> node list \<Rightarrow> node list \<Rightarrow> outcome" where
  "astar_iteration_eltonys maze end_pos open_list closed_list =
     (let (current_node, current_index) = select_current open_list;
          open_list' = pop_at current_index open_list;
          closed_list' = closed_list @ [current_node]
      in if position current_node = end_pos then Return (rev (trace_back current_node))
         else
           (case possible_moves_eltonys (direction current_node) of
              Inl e \<Rightarrow> Raise e
            | Inr moves \<Rightarrow>
                (case gen_children maze current_node moves [] of
                   Inl e \<Rightarrow> Raise e
                 | Inr children \<Rightarrow>
                     Continue (process_children end_pos current_node closed_list' children open_list')
                              closed_list')))"

partial_function (option) astar_loop_eltonys ::
  "maze \<Rightarrow> pos \<Rightarrow> node list \<Rightarrow> node list \<Rightarrow> (error + pos list option) option" where
  "astar_loop_eltonys maze end_pos open_list closed_list =
     (if length open_list > 0 then
        (case astar_iteration_eltonys maze end_pos open_list closed_list of
           Return path \<Rightarrow> Some (Inr (Some path))
         | Raise e \<Rightarrow> Some (Inl e)
         | Continue open_list' closed_list' \<Rightarrow>
             astar_loop_eltonys maze end_pos open_list' closed_list')
      else Some (Inr None))"

declare astar_loop_eltonys.simps [code]

definition astar_eltonys :: "maze \<Rightarrow> pos \<Rightarrow> pos \<Rightarrow> (error + pos list option) option" where
  "astar_eltonys maze start end_pos = astar_loop_eltonys maze end_pos [start_node start] []"

section \<open>Predicates of the statements and of the proofs\<close>

text \<open>The state of a node, the key that \<open>__eq__\<close> compares.\<close>

definition state_of :: "node \<Rightarrow> pos \<times> pos option" where
  "state_of n = (position n, direction n)"

text \<open>One step from a position in a direction.\<close>

definition move :: "pos \<Rightarrow> pos \<Rightarrow> pos" where
  "move p d = (fst p + fst d, snd p + snd d)"

text \<open>The heuristic of the source: the Manhattan distance to the goal.\<close>

definition manhattan :: "pos \<Rightarrow> pos \<Rightarrow> int" where
  "manhattan end_pos p = \<bar>fst p - fst end_pos\<bar> + \<bar>snd p - snd end_pos\<bar>"

text \<open>The range test of the source on a position: the row within \<open>len(maze)\<close>, the column
  within \<open>len(maze[0])\<close>.\<close>

definition in_bounds :: "maze \<Rightarrow> pos \<Rightarrow> bool" where
  "in_bounds maze p \<longleftrightarrow>
     0 \<le> fst p \<and> fst p < int (length maze) \<and> 0 \<le> snd p \<and> snd p < int (length (maze ! 0))"

text \<open>A position that the search may step on: in range, present in its row, and marked 0.\<close>

definition free_cell :: "maze \<Rightarrow> pos \<Rightarrow> bool" where
  "free_cell maze p \<longleftrightarrow>
     in_bounds maze p \<and> snd p < int (length (maze ! nat (fst p))) \<and>
     maze ! nat (fst p) ! nat (snd p) = 0"

text \<open>All rows have the length of the first row.\<close>

definition rectangular :: "maze \<Rightarrow> bool" where
  "rectangular maze \<longleftrightarrow> list_all (\<lambda>row. length row = length (maze ! 0)) maze"

text \<open>The moves tried from a direction, when \<open>possible_moves\<close> does not raise.\<close>

definition allowed :: "pos option \<Rightarrow> pos list" where
  "allowed dir = (case possible_moves dir of Inl e \<Rightarrow> [] | Inr moves \<Rightarrow> moves)"

text \<open>The node that the children loop creates for a move.\<close>

definition mk_child :: "node \<Rightarrow> pos \<Rightarrow> node" where
  "mk_child cur d = Node (Some cur) (move (position cur) d) (Some d) 0 0 0"

text \<open>A position that passes the range test and lies beyond the end of its own row: reading
  the cell there raises \<open>IndexError\<close>.\<close>

definition raises :: "maze \<Rightarrow> pos \<Rightarrow> bool" where
  "raises maze p \<longleftrightarrow> in_bounds maze p \<and> \<not> snd p < int (length (maze ! nat (fst p)))"

text \<open>A child after the assignments to its \<open>g\<close>, \<open>h\<close> and \<open>f\<close>.\<close>

definition with_costs :: "pos \<Rightarrow> node \<Rightarrow> node \<Rightarrow> node" where
  "with_costs end_pos cur child =
     Node (parent child) (position child) (direction child) (gcost cur + 1)
       (manhattan end_pos (position child)) (gcost cur + 1 + manhattan end_pos (position child))"

text \<open>A node built by the search: the start node, or a node one legal move away from a parent
  that is itself built by the search, with the costs the source assigns.\<close>

fun chain_ok :: "maze \<Rightarrow> pos \<Rightarrow> pos \<Rightarrow> node \<Rightarrow> bool" where
  "chain_ok maze start end_pos (Node par p dir g h f) =
     (case par of
        None \<Rightarrow> p = start \<and> dir = None \<and> g = 0 \<and> f = 0
      | Some n \<Rightarrow>
          (\<exists>d \<in> set DIRECTIONS. dir = Some d \<and> d \<in> set (allowed (direction n)) \<and>
             p = move (position n) d) \<and>
          free_cell maze p \<and> g = gcost n + 1 \<and> f = g + manhattan end_pos p \<and>
          chain_ok maze start end_pos n)"

text \<open>The invariant of the main loop: the nodes are built by the search and their parents are
  closed; the states of the open and closed nodes are pairwise distinct; no closed node has a
  larger \<open>f\<close> than an open node; no closed node is at the goal; the start state is present;
  and every legal successor of a closed node is present with a cost not above that of the
  closed node plus one.\<close>

definition search_inv :: "maze \<Rightarrow> pos \<Rightarrow> pos \<Rightarrow> node list \<Rightarrow> node list \<Rightarrow> bool" where
  "search_inv maze start end_pos ol cl \<longleftrightarrow>
     (\<forall>n \<in> set ol \<union> set cl. chain_ok maze start end_pos n \<and>
         (\<forall>p. parent n = Some p \<longrightarrow> p \<in> set cl)) \<and>
     distinct (map state_of (ol @ cl)) \<and>
     (\<forall>c \<in> set cl. \<forall>n \<in> set ol. fcost c \<le> fcost n) \<and>
     (\<forall>c \<in> set cl. position c \<noteq> end_pos) \<and>
     (start, None) \<in> state_of ` (set ol \<union> set cl) \<and>
     (\<forall>c \<in> set cl. \<forall>d \<in> set (allowed (direction c)).
         free_cell maze (move (position c) d) \<longrightarrow>
         (\<exists>m \<in> set ol \<union> set cl. state_of m = (move (position c) d, Some d) \<and>
              gcost m \<le> gcost c + 1))"

text \<open>The pairs of open list and closed list at the head of the main loop during a run.\<close>

inductive reachable :: "maze \<Rightarrow> pos \<Rightarrow> pos \<Rightarrow> node list \<Rightarrow> node list \<Rightarrow> bool"
  for maze :: maze and start :: pos and end_pos :: pos where
  init: "reachable maze start end_pos [start_node start] []"
| step: "reachable maze start end_pos open_list closed_list \<Longrightarrow> length open_list > 0 \<Longrightarrow>
         astar_iteration maze end_pos open_list closed_list = Continue open_list' closed_list' \<Longrightarrow>
         reachable maze start end_pos open_list' closed_list'"

text \<open>The states a node of the search can have: the start state, and the positions in range
  with one of the four directions.\<close>

definition state_space :: "maze \<Rightarrow> pos \<Rightarrow> (pos \<times> pos option) set" where
  "state_space maze start =
     insert (start, None)
       ((\<lambda>(r, c, d). ((r, c), Some d)) `
          ({0..<int (length maze)} \<times> {0..<int (length (maze ! 0))} \<times> set DIRECTIONS))"

text \<open>How a result comes about: the open list ran empty, or a pass of the loop returned a path
  or raised.\<close>

definition finished :: "maze \<Rightarrow> pos \<Rightarrow> pos \<Rightarrow> error + pos list option \<Rightarrow> bool" where
  "finished maze start end_pos r \<longleftrightarrow>
     (case r of
        Inr None \<Rightarrow> \<exists>cl. reachable maze start end_pos [] cl
      | Inr (Some path) \<Rightarrow>
          \<exists>ol cl. reachable maze start end_pos ol cl \<and> ol \<noteq> [] \<and>
                  astar_iteration maze end_pos ol cl = Return path
      | Inl err \<Rightarrow>
          \<exists>ol cl. reachable maze start end_pos ol cl \<and> ol \<noteq> [] \<and>
                  astar_iteration maze end_pos ol cl = Raise err)"

text \<open>The right turn as a function: Up, Right, Down, Left, Up.\<close>

definition clockwise :: "pos \<Rightarrow> pos" where
  "clockwise d = (if d = UP then RIGHT else if d = RIGHT then DOWN
                  else if d = DOWN then LEFT else if d = LEFT then UP else d)"

text \<open>The direction of the move from one position to the next.\<close>

definition heading :: "pos \<Rightarrow> pos \<Rightarrow> pos" where
  "heading p q = (fst q - fst p, snd q - snd p)"

text \<open>Two positions that differ by one unit in exactly one axis.\<close>

definition unit_step :: "pos \<Rightarrow> pos \<Rightarrow> bool" where
  "unit_step p q \<longleftrightarrow>
     (\<bar>fst q - fst p\<bar> = 1 \<and> snd q = snd p) \<or> (fst q = fst p \<and> \<bar>snd q - snd p\<bar> = 1)"

text \<open>Every two consecutive positions are one unit step apart.\<close>

fun adjacent_steps :: "pos list \<Rightarrow> bool" where
  "adjacent_steps (a # b # rest) = (unit_step a b \<and> adjacent_steps (b # rest))"
| "adjacent_steps _ = True"

text \<open>From the second move on, every move goes forward or turns right.\<close>

fun turns_legal :: "pos list \<Rightarrow> bool" where
  "turns_legal (a # b # c # rest) =
     ((heading b c = heading a b \<or> heading b c = clockwise (heading a b)) \<and>
      turns_legal (b # c # rest))"
| "turns_legal _ = True"

text \<open>A path from the start to the goal under the movement rule: unit steps, legal turns, and
  every position after the first on a free cell.\<close>

definition constrained_path :: "maze \<Rightarrow> pos \<Rightarrow> pos \<Rightarrow> pos list \<Rightarrow> bool" where
  "constrained_path maze start end_pos ps \<longleftrightarrow>
     ps \<noteq> [] \<and> hd ps = start \<and> last ps = end_pos \<and> adjacent_steps ps \<and> turns_legal ps \<and>
     list_all (free_cell maze) (tl ps)"

text \<open>The same rule, stated on the moves from a position reached with a given direction.\<close>

fun legal_from :: "maze \<Rightarrow> pos \<Rightarrow> pos option \<Rightarrow> pos list \<Rightarrow> bool" where
  "legal_from maze p dir [] = True"
| "legal_from maze p dir (q # qs) =
     (heading p q \<in> set (allowed dir) \<and> free_cell maze q \<and>
      legal_from maze q (Some (heading p q)) qs)"

text \<open>The inputs that the input contract excludes: a grid that is not rectangular, or a start or
  goal that is out of bounds or on a wall.\<close>

definition invalid_input :: "maze \<Rightarrow> pos \<Rightarrow> pos \<Rightarrow> bool" where
  "invalid_input maze start end_pos \<longleftrightarrow>
     \<not> rectangular maze \<or> \<not> in_bounds maze start \<or> \<not> in_bounds maze end_pos \<or>
     \<not> free_cell maze start \<or> \<not> free_cell maze end_pos"

text \<open>A run that ends in an exception.\<close>

definition rejected :: "(error + pos list option) option \<Rightarrow> bool" where
  "rejected r = (case r of Some (Inl err) \<Rightarrow> True | _ \<Rightarrow> False)"

section \<open>Lemmas\<close>

subsection \<open>Directions, selection and removal\<close>

lemma node_eq_state: "node_eq a b \<longleftrightarrow> state_of a = state_of b"
  by (simp add: node_eq_def state_of_def)

lemma node_in_state: "node_in child ns \<longleftrightarrow> state_of child \<in> state_of ` set ns"
  by (auto simp: node_in_def list_ex_iff node_eq_state)

lemma distinct_DIRECTIONS: "distinct DIRECTIONS"
  by (simp add: DIRECTIONS_def UP_def RIGHT_def DOWN_def LEFT_def)

lemma set_DIRECTIONS: "set DIRECTIONS = {(-1,0), (0,1), (1,0), (0,-1)}"
  by (auto simp add: DIRECTIONS_def UP_def RIGHT_def DOWN_def LEFT_def)

lemma possible_moves_None: "possible_moves None = Inr DIRECTIONS"
  by (simp add: possible_moves_def DIRECTIONS_def)

lemma turn_right_lookup_dir:
  "d \<in> set DIRECTIONS \<Longrightarrow> \<exists>t \<in> set DIRECTIONS. turn_right_lookup d = Inr t"
  by (auto simp: turn_right_lookup_def turn_right_map_def DIRECTIONS_def UP_def RIGHT_def DOWN_def LEFT_def)

lemma possible_moves_dir:
  "d \<in> set DIRECTIONS \<Longrightarrow> \<exists>ms. possible_moves (Some d) = Inr ms \<and> set ms \<subseteq> set DIRECTIONS"
  using turn_right_lookup_dir [of d] by (auto simp: possible_moves_def)

lemma allowed_None: "allowed None = DIRECTIONS"
  by (simp add: allowed_def possible_moves_None)

lemma possible_moves_allowed:
  "possible_moves dir = Inr ms \<Longrightarrow> allowed dir = ms"
  by (simp add: allowed_def)

lemma allowed_subset:
  "dir = None \<or> (\<exists>d \<in> set DIRECTIONS. dir = Some d) \<Longrightarrow> set (allowed dir) \<subseteq> set DIRECTIONS"
proof (cases dir)
  case None
  then show ?thesis by (simp add: allowed_None)
next
  case (Some d)
  assume "dir = None \<or> (\<exists>d \<in> set DIRECTIONS. dir = Some d)"
  then have "d \<in> set DIRECTIONS" using Some by auto
  from possible_moves_dir [OF this] show ?thesis using Some by (auto simp: allowed_def)
qed

lemma manhattan_step:
  "d \<in> set DIRECTIONS \<Longrightarrow> manhattan e p \<le> 1 + manhattan e (move p d)"
  by (auto simp: set_DIRECTIONS manhattan_def move_def)

lemma manhattan_nonneg: "0 \<le> manhattan e p"
  by (simp add: manhattan_def)

lemma manhattan_self: "manhattan e e = 0"
  by (simp add: manhattan_def)

lemma scan_min_props:
  assumes "ci < k" "cn = ol ! ci" "k + length xs = length ol"
    "\<forall>j < length xs. xs ! j = ol ! (k + j)"
    "\<forall>j < k. fcost cn \<le> fcost (ol ! j)" "\<forall>j < ci. fcost cn < fcost (ol ! j)"
  shows "case scan_min (enumerate k xs) (cn, ci) of (n, i) \<Rightarrow>
           i < length ol \<and> n = ol ! i \<and> (\<forall>j < length ol. fcost n \<le> fcost (ol ! j)) \<and>
           (\<forall>j < i. fcost n < fcost (ol ! j))"
  using assms
proof (induction xs arbitrary: k cn ci)
  case Nil
  then show ?case by simp
next
  case (Cons x xs)
  have xk: "x = ol ! k" using Cons.prems(4) by (metis add.right_neutral length_greater_0_conv list.distinct(1) nth_Cons_0)
  have len: "Suc k + length xs = length ol" using Cons.prems(3) by simp
  have rest: "\<forall>j < length xs. xs ! j = ol ! (Suc k + j)"
    using Cons.prems(4) by (metis add_Suc_shift length_Cons not_less_eq nth_Cons_Suc)
  show ?case
  proof (cases "fcost x < fcost cn")
    case True
    have a: "\<forall>j < Suc k. fcost x \<le> fcost (ol ! j)"
      using True Cons.prems(5) xk by (auto simp: less_Suc_eq)
    have b: "\<forall>j < k. fcost x < fcost (ol ! j)"
      using True Cons.prems(5) by fastforce
    have "case scan_min (enumerate (Suc k) xs) (x, k) of (n, i) \<Rightarrow>
           i < length ol \<and> n = ol ! i \<and> (\<forall>j < length ol. fcost n \<le> fcost (ol ! j)) \<and>
           (\<forall>j < i. fcost n < fcost (ol ! j))"
      by (rule Cons.IH [OF _ xk len rest a b]) simp
    then show ?thesis using True by simp
  next
    case False
    have a: "\<forall>j < Suc k. fcost cn \<le> fcost (ol ! j)"
      using False Cons.prems(5) xk by (auto simp: less_Suc_eq)
    have "case scan_min (enumerate (Suc k) xs) (cn, ci) of (n, i) \<Rightarrow>
           i < length ol \<and> n = ol ! i \<and> (\<forall>j < length ol. fcost n \<le> fcost (ol ! j)) \<and>
           (\<forall>j < i. fcost n < fcost (ol ! j))"
      by (rule Cons.IH [OF _ Cons.prems(2) len rest a Cons.prems(6)]) (use Cons.prems(1) in simp)
    then show ?thesis using False by simp
  qed
qed

lemma select_current_props:
  assumes "open_list \<noteq> []" "select_current open_list = (n, i)"
  shows "i < length open_list" "n = open_list ! i"
    "\<forall>j < length open_list. fcost n \<le> fcost (open_list ! j)"
    "\<forall>j < i. fcost n < fcost (open_list ! j)"
proof -
  obtain x xs where ol: "open_list = x # xs" using assms(1) by (cases open_list) auto
  have "case scan_min (enumerate 1 xs) (x, 0) of (n, i) \<Rightarrow>
           i < length open_list \<and> n = open_list ! i \<and> (\<forall>j < length open_list. fcost n \<le> fcost (open_list ! j)) \<and>
           (\<forall>j < i. fcost n < fcost (open_list ! j))"
    by (rule scan_min_props) (auto simp: ol)
  moreover have "select_current open_list = scan_min (enumerate 1 xs) (x, 0)"
    by (simp add: select_current_def ol)
  ultimately show "i < length open_list" "n = open_list ! i"
    "\<forall>j < length open_list. fcost n \<le> fcost (open_list ! j)"
    "\<forall>j < i. fcost n < fcost (open_list ! j)"
    using assms(2) by auto
qed

lemma set_pop_at: "i < length xs \<Longrightarrow> set xs = insert (xs ! i) (set (pop_at i xs))"
proof -
  assume a: "i < length xs"
  have "xs = take i xs @ (xs ! i) # drop (Suc i) xs" using a by (simp add: id_take_nth_drop)
  then have "set xs = set (take i xs @ (xs ! i) # drop (Suc i) xs)" by simp
  then show ?thesis by (simp add: pop_at_def)
qed

lemma map_pop_at: "map g (pop_at i xs) = pop_at i (map g xs)"
  by (simp add: pop_at_def take_map drop_map)

lemma distinct_pop_at:
  "i < length xs \<Longrightarrow> distinct xs \<Longrightarrow> distinct (pop_at i xs) \<and> xs ! i \<notin> set (pop_at i xs)"
proof -
  assume a: "i < length xs" and d: "distinct xs"
  have "xs = take i xs @ (xs ! i) # drop (Suc i) xs" using a by (simp add: id_take_nth_drop)
  then have "distinct (take i xs @ (xs ! i) # drop (Suc i) xs)" using d by simp
  then show ?thesis by (auto simp: pop_at_def)
qed

subsection \<open>The children and the open list\<close>

lemma within_range_eq: "within_range maze p = Inr (in_bounds maze p)"
  by (cases maze) (auto simp: within_range_def in_bounds_def getitem_def)

lemma cell_in_bounds:
  "in_bounds maze p \<Longrightarrow>
   cell maze p = (if snd p < int (length (maze ! nat (fst p)))
                  then Inr (maze ! nat (fst p) ! nat (snd p)) else Inl IndexError)"
  by (auto simp: cell_def in_bounds_def getitem_def)

lemma gen_children_eq:
  "gen_children maze cur moves acc =
     (if \<exists>d \<in> set moves. raises maze (move (position cur) d) then Inl IndexError
      else Inr (acc @ map (mk_child cur)
                  (filter (\<lambda>d. free_cell maze (move (position cur) d)) moves)))"
proof (induction moves arbitrary: acc)
  case Nil
  then show ?case by simp
next
  case (Cons d moves)
  let ?p = "move (position cur) d"
  show ?case
  proof (cases "in_bounds maze ?p")
    case False
    then have "\<not> raises maze ?p" "\<not> free_cell maze ?p"
      by (simp_all add: raises_def free_cell_def)
    then show ?thesis using False Cons.IH [of acc]
      by (simp add: within_range_eq move_def [symmetric])
  next
    case True
    show ?thesis
    proof (cases "snd ?p < int (length (maze ! nat (fst ?p)))")
      case False
      then have "raises maze ?p" using True by (simp add: raises_def)
      then show ?thesis using True False
        by (simp add: within_range_eq move_def [symmetric] cell_in_bounds)
    next
      case inrow: True
      then have nr: "\<not> raises maze ?p" by (simp add: raises_def)
      show ?thesis
      proof (cases "maze ! nat (fst ?p) ! nat (snd ?p) = 0")
        case True
        then have "free_cell maze ?p" using \<open>in_bounds maze ?p\<close> inrow by (simp add: free_cell_def)
        then show ?thesis using \<open>in_bounds maze ?p\<close> inrow True nr Cons.IH [of "acc @ [mk_child cur d]"]
          by (simp add: within_range_eq move_def [symmetric] cell_in_bounds mk_child_def)
      next
        case False
        then have "\<not> free_cell maze ?p" by (simp add: free_cell_def)
        then show ?thesis using \<open>in_bounds maze ?p\<close> inrow False nr Cons.IH [of acc]
          by (simp add: within_range_eq move_def [symmetric] cell_in_bounds)
      qed
    qed
  qed
qed

lemma rectangular_no_raise: "rectangular maze \<Longrightarrow> \<not> raises maze p"
  by (auto simp: rectangular_def raises_def in_bounds_def list_all_iff)

lemma process_children_step:
  "process_children e cur cl (child # rest) ol =
     (if node_in child cl \<or> is_in_open_list (with_costs e cur child) ol
      then process_children e cur cl rest ol
      else process_children e cur cl rest (ol @ [with_costs e cur child]))"
  by (simp add: with_costs_def manhattan_def Let_def)

declare process_children.simps(2) [simp del]

lemma state_of_with_costs [simp]: "state_of (with_costs e cur c) = state_of c"
  by (simp add: with_costs_def state_of_def)

lemma gcost_with_costs [simp]: "gcost (with_costs e cur c) = gcost cur + 1"
  by (simp add: with_costs_def)

lemma is_in_open_list_iff:
  "is_in_open_list c ol \<longleftrightarrow> (\<exists>m \<in> set ol. state_of m = state_of c \<and> gcost m \<le> gcost c)"
  unfolding is_in_open_list_def list_ex_iff node_eq_state by metis

lemma process_children_prefix:
  "\<exists>added. process_children e cur cl children ol = ol @ added \<and>
      (\<forall>n \<in> set added. \<exists>c \<in> set children. n = with_costs e cur c \<and> \<not> node_in c cl)"
proof (induction children arbitrary: ol)
  case Nil
  then show ?case by simp
next
  case (Cons child rest)
  show ?case
  proof (cases "node_in child cl \<or> is_in_open_list (with_costs e cur child) ol")
    case True
    obtain added where "process_children e cur cl rest ol = ol @ added"
      "\<forall>n \<in> set added. \<exists>c \<in> set rest. n = with_costs e cur c \<and> \<not> node_in c cl"
      using Cons.IH [of ol] by blast
    then show ?thesis using True by (simp add: process_children_step)
  next
    case False
    obtain added where a: "process_children e cur cl rest (ol @ [with_costs e cur child])
         = (ol @ [with_costs e cur child]) @ added"
      "\<forall>n \<in> set added. \<exists>c \<in> set rest. n = with_costs e cur c \<and> \<not> node_in c cl"
      using Cons.IH [of "ol @ [with_costs e cur child]"] by blast
    have "process_children e cur cl (child # rest) ol = ol @ (with_costs e cur child # added)"
      using False a(1) by (simp only: process_children_step if_False append_assoc append_Cons append_Nil)
    moreover have "\<forall>n \<in> set (with_costs e cur child # added).
        \<exists>c \<in> set (child # rest). n = with_costs e cur c \<and> \<not> node_in c cl"
      using False a(2) by auto
    ultimately show ?thesis by blast
  qed
qed

lemma process_children_cover:
  "c \<in> set children \<Longrightarrow> node_in c cl \<or>
     (\<exists>m \<in> set (process_children e cur cl children ol).
         state_of m = state_of c \<and> gcost m \<le> gcost cur + 1)"
proof (induction children arbitrary: ol)
  case Nil
  then show ?case by simp
next
  case (Cons child rest)
  show ?case
  proof (cases "c = child")
    case True
    show ?thesis
    proof (cases "node_in child cl")
      case True
      then show ?thesis using \<open>c = child\<close> by simp
    next
      case notcl: False
      show ?thesis
      proof (cases "is_in_open_list (with_costs e cur child) ol")
        case True
        then obtain m where m: "m \<in> set ol" "state_of m = state_of child" "gcost m \<le> gcost cur + 1"
          by (auto simp: is_in_open_list_iff)
        obtain added where "process_children e cur cl (child # rest) ol = ol @ added"
          using process_children_prefix by blast
        then have "m \<in> set (process_children e cur cl (child # rest) ol)" using m(1) by simp
        then show ?thesis using m \<open>c = child\<close> by blast
      next
        case False
        obtain added where "process_children e cur cl rest (ol @ [with_costs e cur child])
            = (ol @ [with_costs e cur child]) @ added"
          using process_children_prefix by blast
        then have "with_costs e cur child \<in> set (process_children e cur cl (child # rest) ol)"
          using False notcl by (simp add: process_children_step)
        then show ?thesis using \<open>c = child\<close>
          by (metis gcost_with_costs order_refl state_of_with_costs)
      qed
    qed
  next
    case False
    then have "c \<in> set rest" using Cons.prems by simp
    then show ?thesis using Cons.IH by (simp add: process_children_step)
  qed
qed

lemma process_children_distinct:
  assumes "distinct (map state_of ol)"
    and "\<forall>m \<in> set ol. \<forall>d. direction m = Some d \<longrightarrow> position m = move (position cur) d
           \<longrightarrow> gcost m \<le> gcost cur + 1"
    and "\<forall>c \<in> set children. \<exists>d. direction c = Some d \<and> position c = move (position cur) d"
  shows "distinct (map state_of (process_children e cur cl children ol))"
  using assms
proof (induction children arbitrary: ol)
  case Nil
  then show ?case by simp
next
  case (Cons child rest)
  show ?case
  proof (cases "node_in child cl \<or> is_in_open_list (with_costs e cur child) ol")
    case True
    then show ?thesis using Cons.IH [of ol] Cons.prems by (simp add: process_children_step)
  next
    case False
    let ?n = "with_costs e cur child"
    obtain d where d: "direction child = Some d" "position child = move (position cur) d"
      using Cons.prems(3) by auto
    have fresh: "state_of ?n \<notin> state_of ` set ol"
    proof
      assume "state_of ?n \<in> state_of ` set ol"
      then obtain m where m: "m \<in> set ol" "state_of m = state_of child" by auto
      then have "direction m = Some d" "position m = move (position cur) d"
        using d by (simp_all add: state_of_def)
      then have "gcost m \<le> gcost cur + 1" using Cons.prems(2) m(1) by blast
      then have "is_in_open_list ?n ol" using m by (auto simp: is_in_open_list_iff)
      then show False using False by simp
    qed
    have 1: "distinct (map state_of (ol @ [?n]))" using Cons.prems(1) fresh by simp
    have 2: "\<forall>m \<in> set (ol @ [?n]). \<forall>d. direction m = Some d \<longrightarrow> position m = move (position cur) d
           \<longrightarrow> gcost m \<le> gcost cur + 1"
      using Cons.prems(2) by auto
    have 3: "\<forall>c \<in> set rest. \<exists>d. direction c = Some d \<and> position c = move (position cur) d"
      using Cons.prems(3) by simp
    show ?thesis using Cons.IH [OF 1 2 3] False by (simp add: process_children_step)
  qed
qed

subsection \<open>Nodes built by the search\<close>

lemma chain_ok_root:
  "chain_ok maze start e n \<Longrightarrow> direction n = None \<Longrightarrow>
     parent n = None \<and> position n = start \<and> gcost n = 0 \<and> fcost n = 0"
  by (cases n) (auto split: option.splits)

lemma chain_ok_child:
  "chain_ok maze start e n \<Longrightarrow> direction n = Some d \<Longrightarrow>
     \<exists>p. parent n = Some p \<and> d \<in> set DIRECTIONS \<and> d \<in> set (allowed (direction p)) \<and>
         position n = move (position p) d \<and> free_cell maze (position n) \<and>
         gcost n = gcost p + 1 \<and> fcost n = gcost n + manhattan e (position n) \<and>
         chain_ok maze start e p"
  by (cases n) (auto split: option.splits)

lemma chain_ok_gcost: "chain_ok maze start e n \<Longrightarrow> 0 \<le> gcost n"
proof (induction n rule: chain_ok.induct)
  case (1 maze start end_pos par p dir g h f)
  then show ?case by (cases par) auto
qed

lemma chain_ok_fcost:
  "chain_ok maze start e n \<Longrightarrow>
     gcost n \<le> fcost n \<and> fcost n \<le> gcost n + manhattan e (position n)"
proof (cases "direction n")
  case None
  assume "chain_ok maze start e n"
  from chain_ok_root [OF this None] show ?thesis using manhattan_nonneg [of e "position n"] by simp
next
  case (Some d)
  assume "chain_ok maze start e n"
  from chain_ok_child [OF this Some] show ?thesis using manhattan_nonneg [of e "position n"] by auto
qed

lemma chain_ok_direction:
  "chain_ok maze start e n \<Longrightarrow> direction n = None \<or> (\<exists>d \<in> set DIRECTIONS. direction n = Some d)"
  using chain_ok_child by (cases "direction n") blast+

lemma move_inj: "move p d = move q d \<Longrightarrow> p = q"
  by (cases p; cases q) (simp add: move_def)

lemma same_cell_gcost:
  assumes "chain_ok maze start e p" "chain_ok maze start e c"
    "position p = position c" "fcost p \<le> fcost c"
  shows "gcost p \<le> gcost c"
proof (cases "direction c")
  case None
  then have "fcost c = 0" "gcost c = 0" using chain_ok_root [OF assms(2)] by simp_all
  then show ?thesis using chain_ok_fcost [OF assms(1)] assms(4) by simp
next
  case c: (Some dc)
  show ?thesis
  proof (cases "direction p")
    case None
    then have "gcost p = 0" using chain_ok_root [OF assms(1)] by simp
    then show ?thesis using chain_ok_gcost [OF assms(2)] by simp
  next
    case (Some dp)
    have "fcost p = gcost p + manhattan e (position p)"
      using chain_ok_child [OF assms(1) Some] by auto
    moreover have "fcost c = gcost c + manhattan e (position c)"
      using chain_ok_child [OF assms(2) c] by auto
    ultimately show ?thesis using assms(3,4) by simp
  qed
qed

lemma pred_gcost:
  assumes inv: "search_inv maze start e ol cl" and cur: "cur \<in> set ol"
    and m: "m \<in> set ol \<union> set cl" "direction m = Some d" "position m = move (position cur) d"
  shows "gcost m \<le> gcost cur + 1"
proof -
  have okm: "chain_ok maze start e m" using inv m(1) by (auto simp: search_inv_def)
  have okc: "chain_ok maze start e cur" using inv cur by (auto simp: search_inv_def)
  obtain p where p: "parent m = Some p" "position m = move (position p) d"
    "gcost m = gcost p + 1" "chain_ok maze start e p"
    using chain_ok_child [OF okm m(2)] by auto
  have pcl: "p \<in> set cl" using inv m(1) p(1) unfolding search_inv_def by blast
  then have "fcost p \<le> fcost cur" using inv cur unfolding search_inv_def by blast
  moreover have "position p = position cur" using p(2) m(3) move_inj by metis
  ultimately have "gcost p \<le> gcost cur" using same_cell_gcost [OF p(4) okc] by simp
  then show ?thesis using p(3) by simp
qed

lemma iteration_Continue:
  assumes "astar_iteration maze e ol cl = Continue ol' cl'"
  obtains cur i where "select_current ol = (cur, i)" "position cur \<noteq> e"
    "\<not> (\<exists>d \<in> set (allowed (direction cur)). raises maze (move (position cur) d))"
    "possible_moves (direction cur) = Inr (allowed (direction cur))"
    "cl' = cl @ [cur]"
    "ol' = process_children e cur (cl @ [cur])
             (map (mk_child cur)
                (filter (\<lambda>d. free_cell maze (move (position cur) d)) (allowed (direction cur))))
             (pop_at i ol)"
proof -
  obtain cur i where sel: "select_current ol = (cur, i)" by (cases "select_current ol")
  have ne: "position cur \<noteq> e" using assms sel by (auto simp: astar_iteration_def Let_def)
  obtain moves where pm: "possible_moves (direction cur) = Inr moves"
    using assms sel ne by (auto simp: astar_iteration_def Let_def split: sum.splits)
  then have al: "allowed (direction cur) = moves" by (rule possible_moves_allowed)
  obtain children where gc: "gen_children maze cur moves [] = Inr children"
    using assms sel ne pm by (auto simp: astar_iteration_def Let_def split: sum.splits)
  have res: "ol' = process_children e cur (cl @ [cur]) children (pop_at i ol)" "cl' = cl @ [cur]"
    using assms sel ne pm gc by (auto simp: astar_iteration_def Let_def)
  have nr: "\<not> (\<exists>d \<in> set moves. raises maze (move (position cur) d))"
    using gc by (auto simp: gen_children_eq split: if_splits)
  then have "children = map (mk_child cur) (filter (\<lambda>d. free_cell maze (move (position cur) d)) moves)"
    using gc by (auto simp: gen_children_eq split: if_splits)
  then show ?thesis using that [OF sel ne] nr pm res al by simp
qed

subsection \<open>The invariant of the main loop\<close>

lemma search_inv_init: "search_inv maze start e [start_node start] []"
  by (simp add: search_inv_def start_node_def state_of_def)

lemma search_invD:
  assumes "search_inv maze start e ol cl"
  shows "\<forall>n \<in> set ol \<union> set cl. chain_ok maze start e n"
    and "\<forall>n \<in> set ol \<union> set cl. \<forall>p. parent n = Some p \<longrightarrow> p \<in> set cl"
    and "distinct (map state_of (ol @ cl))"
    and "\<forall>c \<in> set cl. \<forall>n \<in> set ol. fcost c \<le> fcost n"
    and "\<forall>c \<in> set cl. position c \<noteq> e"
    and "(start, None) \<in> state_of ` (set ol \<union> set cl)"
    and "\<forall>c \<in> set cl. \<forall>d \<in> set (allowed (direction c)).
         free_cell maze (move (position c) d) \<longrightarrow>
         (\<exists>m \<in> set ol \<union> set cl. state_of m = (move (position c) d, Some d) \<and>
              gcost m \<le> gcost c + 1)"
  using assms unfolding search_inv_def by simp_all

lemma search_inv_step:
  assumes inv: "search_inv maze start e ol cl" and ne: "ol \<noteq> []"
    and it: "astar_iteration maze e ol cl = Continue ol' cl'"
  shows "search_inv maze start e ol' cl'"
proof -
  from it obtain cur i where sel: "select_current ol = (cur, i)" and notgoal: "position cur \<noteq> e"
    and cl': "cl' = cl @ [cur]"
    and ol': "ol' = process_children e cur (cl @ [cur])
             (map (mk_child cur)
                (filter (\<lambda>d. free_cell maze (move (position cur) d)) (allowed (direction cur))))
             (pop_at i ol)"
    by (rule iteration_Continue)
  let ?children = "map (mk_child cur)
                (filter (\<lambda>d. free_cell maze (move (position cur) d)) (allowed (direction cur)))"
  let ?ol0 = "pop_at i ol"
  have i: "i < length ol" and curi: "cur = ol ! i"
    and minf: "\<forall>j < length ol. fcost cur \<le> fcost (ol ! j)"
    using select_current_props [OF ne sel] by auto
  have curol: "cur \<in> set ol" using i curi by simp
  have setol: "set ol = insert cur (set ?ol0)" using set_pop_at [OF i] curi by simp
  have minf': "\<forall>n \<in> set ol. fcost cur \<le> fcost n" using minf by (auto simp: in_set_conv_nth)
  have okall: "\<forall>n \<in> set ol \<union> set cl. chain_ok maze start e n"
    and parall: "\<forall>n \<in> set ol \<union> set cl. \<forall>p. parent n = Some p \<longrightarrow> p \<in> set cl"
    and dist: "distinct (map state_of (ol @ cl))"
    and mono: "\<forall>c \<in> set cl. \<forall>n \<in> set ol. fcost c \<le> fcost n"
    and nogoal: "\<forall>c \<in> set cl. position c \<noteq> e"
    and st: "(start, None) \<in> state_of ` (set ol \<union> set cl)"
    and succ: "\<forall>c \<in> set cl. \<forall>d \<in> set (allowed (direction c)).
         free_cell maze (move (position c) d) \<longrightarrow>
         (\<exists>m \<in> set ol \<union> set cl. state_of m = (move (position c) d, Some d) \<and>
              gcost m \<le> gcost c + 1)"
    using search_invD [OF inv] by blast+
  have okcur: "chain_ok maze start e cur" using okall curol by blast
  have dirs: "set (allowed (direction cur)) \<subseteq> set DIRECTIONS"
    using allowed_subset chain_ok_direction [OF okcur] by blast
  obtain added where added: "ol' = ?ol0 @ added"
    and addedc: "\<forall>n \<in> set added. \<exists>c \<in> set ?children. n = with_costs e cur c \<and> \<not> node_in c (cl @ [cur])"
    using process_children_prefix [of e cur "cl @ [cur]" ?children ?ol0] ol' by auto
  have added_form: "\<exists>d \<in> set (allowed (direction cur)). free_cell maze (move (position cur) d) \<and>
        n = with_costs e cur (mk_child cur d) \<and> state_of n \<notin> state_of ` set (cl @ [cur])"
    if nin: "n \<in> set added" for n
  proof -
    from addedc nin obtain c where c1: "c \<in> set ?children" and c2: "n = with_costs e cur c"
      and c3: "\<not> node_in c (cl @ [cur])"
      by (elim ballE [of _ _ n] bexE conjE) simp_all
    from c1 obtain d where d1: "c = mk_child cur d"
      and d2: "d \<in> set (filter (\<lambda>d. free_cell maze (move (position cur) d)) (allowed (direction cur)))"
      unfolding set_map by (elim imageE)
    have d3: "d \<in> set (allowed (direction cur))" and d4: "free_cell maze (move (position cur) d)"
      using d2 by simp_all
    have "state_of n \<notin> state_of ` set (cl @ [cur])"
      using c3 unfolding node_in_state c2 state_of_with_costs .
    with d4 c2 d1 have "free_cell maze (move (position cur) d) \<and>
        n = with_costs e cur (mk_child cur d) \<and> state_of n \<notin> state_of ` set (cl @ [cur])"
      by simp
    with d3 show ?thesis by (rule rev_bexI)
  qed
  have dist_ol: "distinct (map state_of ol)" and dist_cl: "distinct (map state_of cl)"
    and disj: "state_of ` set ol \<inter> state_of ` set cl = {}"
    using dist by auto
  have dist0: "distinct (map state_of ?ol0)" and cur0: "state_of cur \<notin> state_of ` set ?ol0"
  proof -
    have "distinct (pop_at i (map state_of ol)) \<and> map state_of ol ! i \<notin> set (pop_at i (map state_of ol))"
      using distinct_pop_at [of i "map state_of ol"] i dist_ol by simp
    then show "distinct (map state_of ?ol0)" "state_of cur \<notin> state_of ` set ?ol0"
      using i curi by (simp_all add: map_pop_at [symmetric])
  qed
  \<comment> \<open>the nodes\<close>
  have ok_added: "chain_ok maze start e n \<and> parent n = Some cur" if nin: "n \<in> set added" for n
  proof -
    obtain d where d: "d \<in> set (allowed (direction cur))" "free_cell maze (move (position cur) d)"
      "n = with_costs e cur (mk_child cur d)"
      using added_form [OF nin] by blast
    have "d \<in> set DIRECTIONS" using d(1) dirs by blast
    then show ?thesis using d okcur by (simp add: with_costs_def mk_child_def)
  qed
  have c1: "\<forall>n \<in> set ol' \<union> set cl'. chain_ok maze start e n \<and>
         (\<forall>p. parent n = Some p \<longrightarrow> p \<in> set cl')"
  proof
    fix n assume "n \<in> set ol' \<union> set cl'"
    then consider "n \<in> set ol \<union> set cl" | "n \<in> set added"
      using added cl' setol by auto
    then show "chain_ok maze start e n \<and> (\<forall>p. parent n = Some p \<longrightarrow> p \<in> set cl')"
    proof cases
      case 1
      then show ?thesis using okall parall cl' by auto
    next
      case 2
      then show ?thesis using ok_added cl' by auto
    qed
  qed
  \<comment> \<open>distinct states\<close>
  have q0: "\<forall>m \<in> set ?ol0. \<forall>d. direction m = Some d \<longrightarrow> position m = move (position cur) d
           \<longrightarrow> gcost m \<le> gcost cur + 1"
    using pred_gcost [OF inv curol] setol by blast
  have ch_form: "\<forall>c \<in> set ?children. \<exists>d. direction c = Some d \<and> position c = move (position cur) d"
    by (auto simp: mk_child_def)
  have dist_ol': "distinct (map state_of ol')"
    unfolding ol' by (rule process_children_distinct [OF dist0 q0 ch_form])
  have dist_cl': "distinct (map state_of cl')"
    using dist_cl disj curol cl' by auto
  have disj': "state_of ` set ol' \<inter> state_of ` set cl' = {}"
  proof -
    have "state_of n \<notin> state_of ` set cl'" if nin: "n \<in> set ol'" for n
    proof -
      from nin consider "n \<in> set ?ol0" | "n \<in> set added" using added by auto
      then show ?thesis
      proof cases
        case 1
        then have "n \<in> set ol" using setol by blast
        then have "state_of n \<notin> state_of ` set cl" using disj by blast
        moreover have "state_of n \<noteq> state_of cur" using cur0 1 by (metis imageI)
        ultimately show ?thesis using cl' by auto
      next
        case 2
        then show ?thesis using added_form cl' by blast
      qed
    qed
    then show ?thesis by blast
  qed
  have c2: "distinct (map state_of (ol' @ cl'))"
    using dist_ol' dist_cl' disj' by simp
  \<comment> \<open>monotone f\<close>
  have f_added: "fcost cur \<le> fcost n" if nin: "n \<in> set added" for n
  proof -
    obtain d where d: "d \<in> set (allowed (direction cur))"
      "n = with_costs e cur (mk_child cur d)"
      using added_form [OF nin] by blast
    have "d \<in> set DIRECTIONS" using d(1) dirs by blast
    then have "manhattan e (position cur) \<le> 1 + manhattan e (move (position cur) d)"
      by (rule manhattan_step)
    moreover have "fcost n = gcost cur + 1 + manhattan e (move (position cur) d)"
      using d(2) by (simp add: with_costs_def mk_child_def)
    ultimately show ?thesis using chain_ok_fcost [OF okcur, of ] by simp
  qed
  have c3: "\<forall>c \<in> set cl'. \<forall>n \<in> set ol'. fcost c \<le> fcost n"
  proof (intro ballI)
    fix c n assume c: "c \<in> set cl'" and n: "n \<in> set ol'"
    have "fcost c \<le> fcost cur" using c cl' mono curol by auto
    moreover have "fcost cur \<le> fcost n"
      using n added f_added minf' setol by auto
    ultimately show "fcost c \<le> fcost n" by simp
  qed
  have c4: "\<forall>c \<in> set cl'. position c \<noteq> e" using nogoal notgoal cl' by auto
  have sub: "set ol \<union> set cl \<subseteq> set ol' \<union> set cl'" using setol added cl' by auto
  have c5: "(start, None) \<in> state_of ` (set ol' \<union> set cl')" using st sub by blast
  have c6: "\<forall>c \<in> set cl'. \<forall>d \<in> set (allowed (direction c)).
         free_cell maze (move (position c) d) \<longrightarrow>
         (\<exists>m \<in> set ol' \<union> set cl'. state_of m = (move (position c) d, Some d) \<and>
              gcost m \<le> gcost c + 1)"
  proof (intro ballI impI)
    fix c d assume c: "c \<in> set cl'" and d: "d \<in> set (allowed (direction c))"
      and fr: "free_cell maze (move (position c) d)"
    show "\<exists>m \<in> set ol' \<union> set cl'. state_of m = (move (position c) d, Some d) \<and>
              gcost m \<le> gcost c + 1"
    proof (cases "c \<in> set cl")
      case True
      then show ?thesis using succ d fr sub by blast
    next
      case False
      then have ccur: "c = cur" using c cl' by simp
      have "mk_child cur d \<in> set ?children" using d fr ccur by simp
      from process_children_cover [OF this, of "cl @ [cur]" e cur ?ol0]
      consider "node_in (mk_child cur d) (cl @ [cur])"
        | "\<exists>m \<in> set ol'. state_of m = state_of (mk_child cur d) \<and> gcost m \<le> gcost cur + 1"
        using ol' by auto
      then show ?thesis
      proof cases
        case 1
        then have "state_of (mk_child cur d) \<in> state_of ` set (cl @ [cur])"
          unfolding node_in_state .
        then obtain m where m: "m \<in> set (cl @ [cur])" "state_of m = state_of (mk_child cur d)"
          by (metis imageE)
        then have md: "direction m = Some d" "position m = move (position cur) d"
          by (simp_all add: state_of_def mk_child_def)
        have "m \<in> set ol \<union> set cl" using m(1) curol by auto
        from pred_gcost [OF inv curol this md] have "gcost m \<le> gcost cur + 1" .
        moreover have "m \<in> set cl'" using m(1) cl' by simp
        moreover have "state_of m = (move (position c) d, Some d)"
          using md ccur by (simp add: state_of_def)
        ultimately show ?thesis using ccur by blast
      next
        case 2
        then show ?thesis using ccur by (auto simp: state_of_def mk_child_def)
      qed
    qed
  qed
  show ?thesis unfolding search_inv_def by (intro conjI c1 c2 c3 c4 c5 c6)
qed

subsection \<open>Termination\<close>

lemma reachable_inv: "reachable maze start e ol cl \<Longrightarrow> search_inv maze start e ol cl"
proof (induction rule: reachable.induct)
  case init
  show ?case by (rule search_inv_init)
next
  case (step ol cl ol' cl')
  then show ?case using search_inv_step [of maze start e ol cl ol' cl'] by auto
qed

lemma finite_state_space: "finite (state_space maze start)"
  by (simp add: state_space_def)

lemma card_state_space:
  "card (state_space maze start) \<le> 4 * length maze * length (maze ! 0) + 1"
proof -
  let ?S = "{0..<int (length maze)} \<times> {0..<int (length (maze ! 0))} \<times> set DIRECTIONS"
  let ?T = "(\<lambda>(r, c, d). ((r, c), Some d)) ` ?S"
  have four: "card (set DIRECTIONS) = 4"
    using distinct_card [OF distinct_DIRECTIONS] by (simp add: DIRECTIONS_def)
  have cs: "card ?S = 4 * length maze * length (maze ! 0)"
    by (simp add: card_cartesian_product four)
  have ct: "card ?T \<le> card ?S"
    by (rule card_image_le) simp
  have "card (insert (start, None) ?T) \<le> Suc (card ?T)"
    by (rule card_insert_le_m1) simp_all
  then have "card (state_space maze start) \<le> Suc (card ?T)"
    unfolding state_space_def .
  with ct cs show ?thesis by linarith
qed

lemma chain_ok_state: "chain_ok maze start e n \<Longrightarrow> state_of n \<in> state_space maze start"
proof (cases "direction n")
  case None
  assume "chain_ok maze start e n"
  from chain_ok_root [OF this None] show ?thesis using None
    by (simp add: state_of_def state_space_def)
next
  case (Some d)
  assume "chain_ok maze start e n"
  from chain_ok_child [OF this Some]
  have d: "d \<in> set DIRECTIONS" and fr: "free_cell maze (position n)" by auto
  obtain r c where rc: "position n = (r, c)" by (cases "position n")
  have "(r, c, d) \<in> {0..<int (length maze)} \<times> {0..<int (length (maze ! 0))} \<times> set DIRECTIONS"
    using d fr rc by (simp add: free_cell_def in_bounds_def)
  then have "((r, c), Some d) \<in> (\<lambda>(r, c, d). ((r, c), Some d)) `
          ({0..<int (length maze)} \<times> {0..<int (length (maze ! 0))} \<times> set DIRECTIONS)"
    by (rule rev_image_eqI) simp
  then show ?thesis using rc Some by (simp add: state_of_def state_space_def)
qed

lemma search_inv_bound:
  assumes "search_inv maze start e ol cl"
  shows "length ol + length cl \<le> card (state_space maze start)"
proof -
  have d: "distinct (map state_of (ol @ cl))" using search_invD(3) [OF assms] .
  have "state_of n \<in> state_space maze start" if "n \<in> set ol \<union> set cl" for n
    using search_invD(1) [OF assms] chain_ok_state that by blast
  then have "set (map state_of (ol @ cl)) \<subseteq> state_space maze start"
    by auto
  then have "card (set (map state_of (ol @ cl))) \<le> card (state_space maze start)"
    by (rule card_mono [OF finite_state_space])
  then show ?thesis using distinct_card [OF d] by simp
qed

lemma iteration_closed_length:
  "astar_iteration maze e ol cl = Continue ol' cl' \<Longrightarrow> length cl' = Suc (length cl)"
  by (erule iteration_Continue) simp

lemma loop_finishes:
  "reachable maze start e ol cl \<Longrightarrow>
     \<exists>r. astar_loop maze e ol cl = Some r \<and> finished maze start e r"
proof (induction "card (state_space maze start) - length cl" arbitrary: ol cl rule: less_induct)
  case less
  show ?case
  proof (cases "ol = []")
    case True
    then have "astar_loop maze e ol cl = Some (Inr None)" by (simp add: astar_loop.simps)
    moreover have "finished maze start e (Inr None)"
      using less.prems True by (auto simp: finished_def)
    ultimately show ?thesis by blast
  next
    case False
    show ?thesis
    proof (cases "astar_iteration maze e ol cl")
      case (Return path)
      then have "astar_loop maze e ol cl = Some (Inr (Some path))"
        using False by (simp add: astar_loop.simps)
      moreover have "finished maze start e (Inr (Some path))"
        using less.prems False Return by (auto simp: finished_def)
      ultimately show ?thesis by blast
    next
      case (Raise err)
      then have "astar_loop maze e ol cl = Some (Inl err)"
        using False by (simp add: astar_loop.simps)
      moreover have "finished maze start e (Inl err)"
        using less.prems False Raise by (auto simp: finished_def)
      ultimately show ?thesis by blast
    next
      case (Continue ol' cl')
      have r': "reachable maze start e ol' cl'"
        using reachable.step [OF less.prems _ Continue] False by simp
      have len: "length cl' = Suc (length cl)" using Continue by (rule iteration_closed_length)
      have "length ol' + length cl' \<le> card (state_space maze start)"
        using search_inv_bound [OF reachable_inv [OF r']] .
      then have "card (state_space maze start) - length cl' < card (state_space maze start) - length cl"
        using len by simp
      from less.hyps [OF this r'] obtain r where "astar_loop maze e ol' cl' = Some r"
        "finished maze start e r" by blast
      moreover have "astar_loop maze e ol cl = astar_loop maze e ol' cl'"
        using False Continue by (subst astar_loop.simps) simp
      ultimately show ?thesis by simp
    qed
  qed
qed

lemma astar_finishes: "\<exists>r. astar maze start e = Some r \<and> finished maze start e r"
  unfolding astar_def by (rule loop_finishes [OF reachable.init])

subsection \<open>The path of a node\<close>

lemma unit_step_heading: "unit_step p q \<longleftrightarrow> heading p q \<in> set DIRECTIONS"
  by (auto simp: unit_step_def heading_def set_DIRECTIONS)

lemma move_heading: "move p (heading p q) = q"
  by (simp add: move_def heading_def)

lemma heading_move: "heading p (move p d) = d"
  by (simp add: move_def heading_def)

lemma allowed_Some:
  "d \<in> set DIRECTIONS \<Longrightarrow> allowed (Some d) = [d, clockwise d]"
  by (auto simp: allowed_def possible_moves_def turn_right_lookup_def turn_right_map_def
        clockwise_def DIRECTIONS_def UP_def RIGHT_def DOWN_def LEFT_def)

lemma adjacent_steps_snoc:
  "adjacent_steps (xs @ [a, b]) \<longleftrightarrow> adjacent_steps (xs @ [a]) \<and> unit_step a b"
  by (induction xs rule: adjacent_steps.induct) simp_all

lemma turns_legal_snoc:
  "turns_legal (xs @ [a, b, c]) \<longleftrightarrow>
     turns_legal (xs @ [a, b]) \<and> (heading b c = heading a b \<or> heading b c = clockwise (heading a b))"
  by (induction xs rule: turns_legal.induct) auto

lemma trace_back_unfold:
  "trace_back n = position n # (case parent n of None \<Rightarrow> [] | Some p \<Rightarrow> trace_back p)"
  by (cases n) simp

lemma trace_back_root: "parent n = None \<Longrightarrow> rev (trace_back n) = [position n]"
  by (subst trace_back_unfold) simp

lemma trace_back_child:
  "parent n = Some p \<Longrightarrow> rev (trace_back n) = rev (trace_back p) @ [position n]"
  by (subst trace_back_unfold) simp

lemma trace_back_last: "\<exists>ys. rev (trace_back n) = ys @ [position n]"
  by (subst trace_back_unfold) simp

lemma chain_path:
  "chain_ok maze start e n \<Longrightarrow>
     hd (rev (trace_back n)) = start \<and> last (rev (trace_back n)) = position n \<and>
     adjacent_steps (rev (trace_back n)) \<and> turns_legal (rev (trace_back n)) \<and>
     list_all (free_cell maze) (tl (rev (trace_back n))) \<and>
     int (length (trace_back n)) = gcost n + 1"
proof (induction maze start e n rule: chain_ok.induct)
  case (1 maze start e par p dir g h f)
  let ?n = "Node par p dir g h f"
  show ?case
  proof (cases par)
    case None
    then show ?thesis using "1.prems" by simp
  next
    case (Some q)
    have okq: "chain_ok maze start e q" using "1.prems" Some by simp
    note IH = "1.IH" [OF Some okq]
    obtain d where d: "d \<in> set DIRECTIONS" "dir = Some d" "d \<in> set (allowed (direction q))"
      "p = move (position q) d" and fr: "free_cell maze p" and g: "g = gcost q + 1"
      using "1.prems" Some by auto
    have rv: "rev (trace_back ?n) = rev (trace_back q) @ [p]" using Some by simp
    obtain ys where ys: "rev (trace_back q) = ys @ [position q]"
      using trace_back_last by blast
    have hdq: "d = heading (position q) p" using d(4) by (simp add: heading_move)
    have c1: "hd (rev (trace_back ?n)) = start" using IH ys rv by (cases ys) auto
    have c2: "last (rev (trace_back ?n)) = position ?n" using rv by simp
    have c3: "adjacent_steps (rev (trace_back ?n))"
      using IH d(1) unfolding rv ys by (simp add: adjacent_steps_snoc unit_step_heading hdq)
    have c4: "turns_legal (rev (trace_back ?n))"
    proof (cases "direction q")
      case None
      then have "parent q = None" using chain_ok_root [OF okq] by simp
      then have "rev (trace_back q) = [position q]" by (rule trace_back_root)
      then show ?thesis unfolding rv by simp
    next
      case (Some dq)
      obtain pp where pp: "parent q = Some pp" "dq \<in> set DIRECTIONS"
        "position q = move (position pp) dq"
        using chain_ok_child [OF okq Some] by auto
      obtain zs where zs: "rev (trace_back pp) = zs @ [position pp]"
        using trace_back_last by blast
      have rq: "rev (trace_back q) = zs @ [position pp, position q]"
        using trace_back_child [OF pp(1)] zs by simp
      have hq: "heading (position pp) (position q) = dq" using pp(3) by (simp add: heading_move)
      have "d = dq \<or> d = clockwise dq" using d(3) Some allowed_Some [OF pp(2)] by auto
      then have "heading (position q) p = heading (position pp) (position q) \<or>
             heading (position q) p = clockwise (heading (position pp) (position q))"
        using hq hdq by simp
      moreover have "turns_legal (zs @ [position pp, position q])" using IH rq by simp
      ultimately show ?thesis unfolding rv rq by (simp add: turns_legal_snoc)
    qed
    have c5: "list_all (free_cell maze) (tl (rev (trace_back ?n)))"
      using IH fr unfolding rv ys by (cases ys) auto
    have c6: "int (length (trace_back ?n)) = gcost ?n + 1"
      using IH g Some by simp
    show ?thesis using c1 c2 c3 c4 c5 c6 by blast
  qed
qed

lemma iteration_Return:
  assumes "astar_iteration maze e ol cl = Return path"
  shows "position (fst (select_current ol)) = e \<and>
         path = rev (trace_back (fst (select_current ol)))"
  using assms
  by (cases "select_current ol")
     (auto simp: astar_iteration_def Let_def split: if_splits sum.splits)

lemma select_current_mem:
  "ol \<noteq> [] \<Longrightarrow> fst (select_current ol) \<in> set ol"
  using select_current_props(1,2) [of ol "fst (select_current ol)" "snd (select_current ol)"]
  by simp

lemma astar_path_node:
  assumes "astar maze start e = Some (Inr (Some path))"
  obtains ol cl cur where "reachable maze start e ol cl" "ol \<noteq> []"
    "cur = fst (select_current ol)" "cur \<in> set ol" "position cur = e"
    "path = rev (trace_back cur)" "chain_ok maze start e cur"
proof -
  obtain r where r: "astar maze start e = Some r" "finished maze start e r"
    using astar_finishes by blast
  then have "r = Inr (Some path)" using assms by simp
  then obtain ol cl where oc: "reachable maze start e ol cl" "ol \<noteq> []"
    "astar_iteration maze e ol cl = Return path"
    using r(2) by (auto simp: finished_def)
  let ?cur = "fst (select_current ol)"
  have mem: "?cur \<in> set ol" using oc(2) by (rule select_current_mem)
  have "chain_ok maze start e ?cur"
    using search_invD(1) [OF reachable_inv [OF oc(1)]] mem by blast
  then show ?thesis using that [OF oc(1,2) refl mem] iteration_Return [OF oc(3)] by blast
qed

subsection \<open>Shortest paths\<close>

lemma spec_legal_from:
  assumes "adjacent_steps (p # qs)" "list_all (free_cell maze) qs"
    "case dir of None \<Rightarrow> turns_legal (p # qs)
     | Some d \<Rightarrow> d \<in> set DIRECTIONS \<and> turns_legal ((fst p - fst d, snd p - snd d) # p # qs)"
  shows "legal_from maze p dir qs"
  using assms
proof (induction qs arbitrary: p dir)
  case Nil
  then show ?case by simp
next
  case (Cons q qs)
  have hd: "heading p q \<in> set DIRECTIONS" using Cons.prems(1) by (simp add: unit_step_heading)
  have bk: "(fst q - fst (heading p q), snd q - snd (heading p q)) = p"
    by (simp add: heading_def)
  have tl: "turns_legal (p # q # qs)"
    using Cons.prems(3) by (cases dir) auto
  have al: "heading p q \<in> set (allowed dir)"
  proof (cases dir)
    case None
    then show ?thesis using hd by (simp add: allowed_None)
  next
    case (Some d)
    then have d: "d \<in> set DIRECTIONS"
      and t: "heading p q = heading (fst p - fst d, snd p - snd d) p \<or>
              heading p q = clockwise (heading (fst p - fst d, snd p - snd d) p)"
      using Cons.prems(3) by auto
    have "heading (fst p - fst d, snd p - snd d) p = d" by (simp add: heading_def)
    then show ?thesis using t Some allowed_Some [OF d] by auto
  qed
  have "legal_from maze q (Some (heading p q)) qs"
  proof (rule Cons.IH)
    show "adjacent_steps (q # qs)" using Cons.prems(1) by simp
    show "list_all (free_cell maze) qs" using Cons.prems(2) by simp
    show "case Some (heading p q) of None \<Rightarrow> turns_legal (q # qs)
     | Some d \<Rightarrow> d \<in> set DIRECTIONS \<and> turns_legal ((fst q - fst d, snd q - snd d) # q # qs)"
      using hd tl bk by simp
  qed
  then show ?case using al Cons.prems(2) by simp
qed

lemma legal_from_manhattan:
  assumes "dir = None \<or> (\<exists>d \<in> set DIRECTIONS. dir = Some d)" "legal_from maze p dir qs"
  shows "manhattan (last (p # qs)) p \<le> int (length qs)"
  using assms
proof (induction qs arbitrary: p dir)
  case Nil
  then show ?case by (simp add: manhattan_self)
next
  case (Cons q qs)
  have al: "heading p q \<in> set (allowed dir)" and rest: "legal_from maze q (Some (heading p q)) qs"
    using Cons.prems(2) by simp_all
  have hd: "heading p q \<in> set DIRECTIONS" using al allowed_subset [OF Cons.prems(1)] by blast
  have "manhattan (last (q # qs)) q \<le> int (length qs)"
    by (rule Cons.IH [OF _ rest]) (use hd in simp)
  moreover have "manhattan (last (q # qs)) p \<le> 1 + manhattan (last (q # qs)) (move p (heading p q))"
    by (rule manhattan_step [OF hd])
  ultimately show ?case by (simp add: move_heading)
qed

lemma path_bound:
  assumes inv: "search_inv maze start e ol cl"
    and "legal_from maze p dir qs" "m \<in> set ol \<union> set cl" "state_of m = (p, dir)"
    "last (p # qs) = e"
  shows "\<exists>n \<in> set ol. fcost n \<le> gcost m + int (length qs)"
  using assms(2-)
proof (induction qs arbitrary: p dir m)
  case Nil
  have pe: "position m = e" using Nil.prems(3,4) by (simp add: state_of_def)
  then have "m \<notin> set cl" using search_invD(5) [OF inv] by blast
  then have mo: "m \<in> set ol" using Nil.prems(2) by simp
  have "chain_ok maze start e m" using search_invD(1) [OF inv] mo by blast
  from chain_ok_fcost [OF this] have "fcost m \<le> gcost m" using pe by (simp add: manhattan_self)
  then show ?case using mo by auto
next
  case (Cons q qs)
  let ?d = "heading p q"
  have okm: "chain_ok maze start e m" using search_invD(1) [OF inv] Cons.prems(2) by blast
  have pm: "position m = p" "direction m = dir" using Cons.prems(3) by (simp_all add: state_of_def)
  have dirok: "dir = None \<or> (\<exists>d \<in> set DIRECTIONS. dir = Some d)"
    using chain_ok_direction [OF okm] pm by simp
  have al: "?d \<in> set (allowed dir)" and fr: "free_cell maze q"
    and rest: "legal_from maze q (Some ?d) qs"
    using Cons.prems(1) by simp_all
  show ?case
  proof (cases "m \<in> set ol")
    case True
    have "manhattan (last (p # q # qs)) p \<le> int (length (q # qs))"
      by (rule legal_from_manhattan [OF dirok Cons.prems(1)])
    then have "manhattan e (position m) \<le> int (length (q # qs))"
      using Cons.prems(4) pm by simp
    then have "fcost m \<le> gcost m + int (length (q # qs))"
      using chain_ok_fcost [OF okm] by linarith
    then show ?thesis using True by blast
  next
    case False
    then have mcl: "m \<in> set cl" using Cons.prems(2) by simp
    have a1: "?d \<in> set (allowed (direction m))" using al pm by simp
    have a2: "free_cell maze (move (position m) ?d)" using fr pm by (simp add: move_heading)
    have "\<exists>m' \<in> set ol \<union> set cl. state_of m' = (move (position m) ?d, Some ?d) \<and>
              gcost m' \<le> gcost m + 1"
      using search_invD(7) [OF inv] mcl a1 a2 by blast
    then obtain m' where m': "m' \<in> set ol \<union> set cl" "state_of m' = (q, Some ?d)"
      "gcost m' \<le> gcost m + 1"
      using pm by (auto simp: move_heading)
    have "\<exists>n \<in> set ol. fcost n \<le> gcost m' + int (length qs)"
      by (rule Cons.IH [OF rest m'(1,2)]) (use Cons.prems(4) in simp)
    then obtain n where "n \<in> set ol" "fcost n \<le> gcost m' + int (length qs)" by blast
    then have "n \<in> set ol \<and> fcost n \<le> gcost m + int (length (q # qs))"
      using m'(3) by simp
    then show ?thesis by blast
  qed
qed

lemma astar_path_minimal:
  assumes "astar maze start e = Some (Inr (Some path))"
    and "constrained_path maze start e q"
  shows "length path \<le> length q"
proof -
  from assms(1) obtain ol cl cur where r: "reachable maze start e ol cl" and ne: "ol \<noteq> []"
    and cur: "cur = fst (select_current ol)" "cur \<in> set ol"
    and path: "path = rev (trace_back cur)" and ok: "chain_ok maze start e cur"
    by (rule astar_path_node)
  have inv: "search_inv maze start e ol cl" using r by (rule reachable_inv)
  obtain p qs where q: "q = p # qs" using assms(2) by (cases q) (auto simp: constrained_path_def)
  have ps: "p = start" and last: "last (p # qs) = e" and adj: "adjacent_steps (p # qs)"
    and tl: "turns_legal (p # qs)" and fr: "list_all (free_cell maze) qs"
    using assms(2) q by (auto simp: constrained_path_def split: if_splits)
  have lf: "legal_from maze p None qs"
    by (rule spec_legal_from [OF adj fr]) (use tl in simp)
  obtain m where m: "m \<in> set ol \<union> set cl" "state_of m = (start, None)"
    using search_invD(6) [OF inv] by force
  have okm: "chain_ok maze start e m" using search_invD(1) [OF inv] m(1) by blast
  have "direction m = None" using m(2) by (simp add: state_of_def)
  then have gm: "gcost m = 0" using chain_ok_root [OF okm] by simp
  obtain n where n: "n \<in> set ol" "fcost n \<le> gcost m + int (length qs)"
    using path_bound [OF inv lf m(1) _ last] m(2) ps by blast
  obtain i where sel: "select_current ol = (cur, i)" using cur(1) by (cases "select_current ol") simp
  have "\<forall>j < length ol. fcost cur \<le> fcost (ol ! j)"
    using select_current_props(3) [OF ne sel] .
  then have "fcost cur \<le> fcost n" using n(1) by (auto simp: in_set_conv_nth)
  then have "gcost cur \<le> int (length qs)"
    using chain_ok_fcost [OF ok] n(2) gm by linarith
  moreover have "int (length path) = gcost cur + 1"
    using chain_path [OF ok] path by simp
  ultimately show ?thesis using q by simp
qed

subsection \<open>Results of a run\<close>

lemma possible_moves_ok:
  "dir = None \<or> (\<exists>d \<in> set DIRECTIONS. dir = Some d) \<Longrightarrow> possible_moves dir = Inr (allowed dir)"
proof (cases dir)
  case None
  then show ?thesis by (simp add: allowed_None possible_moves_None)
next
  case (Some d)
  assume "dir = None \<or> (\<exists>d \<in> set DIRECTIONS. dir = Some d)"
  then have "d \<in> set DIRECTIONS" using Some by auto
  from possible_moves_dir [OF this] show ?thesis using Some by (auto simp: allowed_def)
qed

lemma trace_back_nonempty: "rev (trace_back n) \<noteq> []"
  by (subst trace_back_unfold) simp

lemma iteration_Raise:
  assumes r: "reachable maze start e ol cl" and ne: "ol \<noteq> []"
    and it: "astar_iteration maze e ol cl = Raise err"
  shows "err = IndexError \<and> \<not> rectangular maze"
proof -
  obtain cur i where sel: "select_current ol = (cur, i)" by (cases "select_current ol")
  have "cur \<in> set ol" using select_current_mem [OF ne] sel by simp
  then have ok: "chain_ok maze start e cur"
    using search_invD(1) [OF reachable_inv [OF r]] by blast
  have pm: "possible_moves (direction cur) = Inr (allowed (direction cur))"
    by (rule possible_moves_ok [OF chain_ok_direction [OF ok]])
  have "position cur \<noteq> e" using it sel by (auto simp: astar_iteration_def Let_def)
  then have "gen_children maze cur (allowed (direction cur)) [] = Inl err"
    using it sel pm by (auto simp: astar_iteration_def Let_def split: sum.splits)
  then have "err = IndexError \<and> (\<exists>d \<in> set (allowed (direction cur)). raises maze (move (position cur) d))"
    by (auto simp: gen_children_eq split: if_splits)
  then show ?thesis using rectangular_no_raise by blast
qed

lemma astar_result:
  "\<exists>r. astar maze start e = Some r \<and> finished maze start e r \<and>
       (\<forall>err. r = Inl err \<longrightarrow> err = IndexError \<and> \<not> rectangular maze)"
proof -
  obtain r where r: "astar maze start e = Some r" "finished maze start e r"
    using astar_finishes by blast
  have "err = IndexError \<and> \<not> rectangular maze" if h: "r = Inl err" for err
  proof -
    from r(2) h obtain ol cl where "reachable maze start e ol cl" "ol \<noteq> []"
      "astar_iteration maze e ol cl = Raise err"
      unfolding finished_def by auto
    then show ?thesis by (rule iteration_Raise)
  qed
  then show ?thesis using r by blast
qed

lemma astar_path_goal_free:
  assumes "astar maze start e = Some (Inr (Some path))" "start \<noteq> e"
  shows "free_cell maze e"
proof -
  from assms(1) obtain cur where cur: "position cur = e" "chain_ok maze start e cur"
    by (rule astar_path_node)
  show ?thesis
  proof (cases "direction cur")
    case None
    then show ?thesis using chain_ok_root [OF cur(2)] cur(1) assms(2) by simp
  next
    case (Some d)
    then show ?thesis using chain_ok_child [OF cur(2) Some] cur(1) by auto
  qed
qed

lemma iteration_Raise_move:
  assumes r: "reachable maze start e ol cl" and ne: "ol \<noteq> []"
    and it: "astar_iteration maze e ol cl = Raise err"
  shows "err = IndexError \<and>
         (\<exists>d \<in> set (allowed (direction (fst (select_current ol)))).
             raises maze (move (position (fst (select_current ol))) d))"
proof -
  obtain cur i where sel: "select_current ol = (cur, i)" by (cases "select_current ol")
  have "cur \<in> set ol" using select_current_mem [OF ne] sel by simp
  then have ok: "chain_ok maze start e cur"
    using search_invD(1) [OF reachable_inv [OF r]] by blast
  have pm: "possible_moves (direction cur) = Inr (allowed (direction cur))"
    by (rule possible_moves_ok [OF chain_ok_direction [OF ok]])
  have "position cur \<noteq> e" using it sel by (auto simp: astar_iteration_def Let_def)
  then have "gen_children maze cur (allowed (direction cur)) [] = Inl err"
    using it sel pm by (auto simp: astar_iteration_def Let_def split: sum.splits)
  then have "err = IndexError \<and>
      (\<exists>d \<in> set (allowed (direction cur)). raises maze (move (position cur) d))"
    by (auto simp: gen_children_eq split: if_splits)
  then show ?thesis using sel by simp
qed

lemma exhausted_no_path:
  assumes r: "reachable maze start e [] cl"
  shows "\<not> constrained_path maze start e q"
proof
  assume c: "constrained_path maze start e q"
  have inv: "search_inv maze start e [] cl" using r by (rule reachable_inv)
  obtain p qs where q: "q = p # qs" using c by (cases q) (auto simp: constrained_path_def)
  have ps: "p = start" and last: "last (p # qs) = e" and adj: "adjacent_steps (p # qs)"
    and tl: "turns_legal (p # qs)" and fr: "list_all (free_cell maze) qs"
    using c q by (auto simp: constrained_path_def split: if_splits)
  have lf: "legal_from maze p None qs"
    by (rule spec_legal_from [OF adj fr]) (use tl in simp)
  obtain m where m: "m \<in> set [] \<union> set cl" "state_of m = (start, None)"
    using search_invD(6) [OF inv] by force
  have "\<exists>n \<in> set []. fcost n \<le> gcost m + int (length qs)"
    using path_bound [OF inv lf m(1) _ last] m(2) ps by blast
  then show False by simp
qed

lemma astar_path_constrained:
  assumes "astar maze start e = Some (Inr (Some path))"
  shows "constrained_path maze start e path"
proof -
  from assms obtain cur where cur: "position cur = e" "path = rev (trace_back cur)"
    "chain_ok maze start e cur"
    by (rule astar_path_node)
  have "path \<noteq> []" using cur(2) trace_back_nonempty [of cur] by simp
  then show ?thesis using chain_path [OF cur(3)] cur(1,2) by (simp add: constrained_path_def)
qed

lemma possible_moves_eltonys_eq: "possible_moves_eltonys dir = possible_moves dir"
  by (simp add: possible_moves_eltonys_def possible_moves_def DIRECTIONS_def split: option.splits)

lemma astar_iteration_eltonys_eq:
  "astar_iteration_eltonys maze e ol cl = astar_iteration maze e ol cl"
  unfolding astar_iteration_eltonys_def astar_iteration_def possible_moves_eltonys_eq
  by (rule refl)

lemma loop_to_eltonys:
  assumes "astar_loop maze e ol cl = Some y"
  shows "astar_loop_eltonys maze e ol cl = Some y"
proof (rule astar_loop.raw_induct [OF _ assms])
  fix loop maze e ol cl y
  assume IH: "\<And>maze e ol cl y. loop maze e ol cl = Some y \<Longrightarrow>
                astar_loop_eltonys maze e ol cl = Some y"
    and body: "(if length ol > 0 then
        (case astar_iteration maze e ol cl of
           Continue ol' cl' \<Rightarrow> loop maze e ol' cl'
         | Return path \<Rightarrow> Some (Inr (Some path))
         | Raise err \<Rightarrow> Some (Inl err))
      else Some (Inr None)) = Some y"
  show "astar_loop_eltonys maze e ol cl = Some y"
    using body IH by (subst astar_loop_eltonys.simps)
      (auto simp: astar_iteration_eltonys_eq split: if_splits outcome.splits)
qed

lemma loop_from_eltonys:
  assumes "astar_loop_eltonys maze e ol cl = Some y"
  shows "astar_loop maze e ol cl = Some y"
proof (rule astar_loop_eltonys.raw_induct [OF _ assms])
  fix loop maze e ol cl y
  assume IH: "\<And>maze e ol cl y. loop maze e ol cl = Some y \<Longrightarrow>
                astar_loop maze e ol cl = Some y"
    and body: "(if length ol > 0 then
        (case astar_iteration_eltonys maze e ol cl of
           Continue ol' cl' \<Rightarrow> loop maze e ol' cl'
         | Return path \<Rightarrow> Some (Inr (Some path))
         | Raise err \<Rightarrow> Some (Inl err))
      else Some (Inr None)) = Some y"
  show "astar_loop maze e ol cl = Some y"
    using body IH by (subst astar_loop.simps)
      (auto simp: astar_iteration_eltonys_eq split: if_splits outcome.splits)
qed

section \<open>The claims\<close>

text \<open>
  \<^bold>\<open>C1\<close> (optimality). On a rectangular grid with a free in-bounds start and goal, a path
  returned by \<open>astar\<close> is itself a start-to-goal path that keeps to free cells and obeys
  the forward/turn-right rule, and no such path has fewer moves: its move count (its length
  minus one) is the minimum over all constrained paths.
\<close>

theorem astar_optimal:
  assumes "rectangular maze" "free_cell maze start" "free_cell maze end_pos"
    and "astar maze start end_pos = Some (Inr (Some path))"
  shows "constrained_path maze start end_pos path \<and>
         (\<forall>q. constrained_path maze start end_pos q \<longrightarrow> length path - 1 \<le> length q - 1)"
proof -
  from assms(4) obtain cur where cur: "position cur = end_pos" "path = rev (trace_back cur)"
    "chain_ok maze start end_pos cur"
    by (rule astar_path_node)
  have "path \<noteq> []" using cur(2) trace_back_nonempty [of cur] by simp
  then have 1: "constrained_path maze start end_pos path"
    using chain_path [OF cur(3)] cur(1,2) by (simp add: constrained_path_def)
  have 2: "length path - 1 \<le> length q - 1" if "constrained_path maze start end_pos q" for q
    using astar_path_minimal [OF assms(4) that] by simp
  show ?thesis using 1 2 by blast
qed

theorem astar_optimal_witness:
  "rectangular [[0, 0], [0, 0]] \<and> free_cell [[0, 0], [0, 0]] (1, 0) \<and>
   free_cell [[0, 0], [0, 0]] (1, 1) \<and>
   astar [[0, 0], [0, 0]] (1, 0) (1, 1) = Some (Inr (Some [(1, 0), (1, 1)])) \<and>
   constrained_path [[0, 0], [0, 0]] (1, 0) (1, 1) [(1, 0), (1, 1)] \<and>
   constrained_path [[0, 0], [0, 0]] (1, 0) (1, 1) [(1, 0), (0, 0), (0, 1), (1, 1)] \<and>
   length [(1, 0), (1, 1) :: pos] - 1 \<le> length [(1, 0), (0, 0), (0, 1), (1, 1) :: pos] - 1"
proof -
  have h1: "rectangular [[0, 0], [0, 0]]" by (simp add: rectangular_def)
  have h2: "free_cell [[0, 0], [0, 0]] (1, 0)" by (simp add: free_cell_def in_bounds_def)
  have h3: "free_cell [[0, 0], [0, 0]] (1, 1)" by (simp add: free_cell_def in_bounds_def)
  have h4: "astar [[0, 0], [0, 0]] (1, 0) (1, 1) = Some (Inr (Some [(1, 0), (1, 1)]))"
    by code_simp
  have q: "constrained_path [[0, 0], [0, 0]] (1, 0) (1, 1) [(1, 0), (0, 0), (0, 1), (1, 1)]"
    by code_simp
  from astar_optimal [OF h1 h2 h3 h4]
  have c: "constrained_path [[0, 0], [0, 0]] (1, 0) (1, 1) [(1, 0), (1, 1)]"
    and m: "\<forall>q. constrained_path [[0, 0], [0, 0]] (1, 0) (1, 1) q \<longrightarrow>
              length [(1, 0), (1, 1) :: pos] - 1 \<le> length q - 1"
    by blast+
  from m q have "length [(1, 0), (1, 1) :: pos] - 1 \<le> length [(1, 0), (0, 0), (0, 1), (1, 1) :: pos] - 1"
    by blast
  with h1 h2 h3 h4 c q show ?thesis by blast
qed

text \<open>
  \<^bold>\<open>C2\<close> (shape of a returned path). Every path returned by \<open>astar\<close> is non-empty,
  starts at the start coordinate and ends at the goal coordinate; consecutive coordinates
  differ by one unit step in exactly one axis; and from the second move on, each move has
  the direction of the move before it or that direction turned clockwise. The first move
  is unconstrained. This holds for every grid and every start and goal.
\<close>

theorem astar_path_shape:
  assumes "astar maze start end_pos = Some (Inr (Some path))"
  shows "path \<noteq> [] \<and> hd path = start \<and> last path = end_pos \<and>
         adjacent_steps path \<and> turns_legal path"
proof -
  from assms obtain cur where cur: "position cur = end_pos" "path = rev (trace_back cur)"
    "chain_ok maze start end_pos cur"
    by (rule astar_path_node)
  have "path \<noteq> []" using cur(2) trace_back_nonempty [of cur] by simp
  then show ?thesis using chain_path [OF cur(3)] cur(1,2) by simp
qed

theorem astar_path_shape_witness:
  "astar [[0, 0, 0], [1, 1, 0], [0, 0, 0]] (0, 0) (2, 0) =
     Some (Inr (Some [(0, 0), (0, 1), (0, 2), (1, 2), (2, 2), (2, 1), (2, 0)])) \<and>
   hd [(0, 0), (0, 1), (0, 2), (1, 2), (2, 2), (2, 1), (2, 0)] = ((0, 0) :: pos) \<and>
   last [(0, 0), (0, 1), (0, 2), (1, 2), (2, 2), (2, 1), (2, 0)] = ((2, 0) :: pos) \<and>
   adjacent_steps [(0, 0), (0, 1), (0, 2), (1, 2), (2, 2), (2, 1), (2, 0)] \<and>
   turns_legal [(0, 0), (0, 1), (0, 2), (1, 2), (2, 2), (2, 1), (2, 0)]"
proof -
  have h: "astar [[0, 0, 0], [1, 1, 0], [0, 0, 0]] (0, 0) (2, 0) =
     Some (Inr (Some [(0, 0), (0, 1), (0, 2), (1, 2), (2, 2), (2, 1), (2, 0)]))"
    by code_simp
  from astar_path_shape [OF h] h show ?thesis by blast
qed

text \<open>
  \<^bold>\<open>C3\<close> (invalid input). The claim that \<open>astar\<close> rejects a non-rectangular grid, an
  out-of-bounds start or goal, or a start or goal on a wall before the search begins does
  not hold: the function has no validation at all. What holds instead, for every grid, start
  and goal:
  \<^item> \<open>astar\<close> always terminates, and every result comes out of the main loop: the open list
    ran empty at a loop head of the run, or a pass of the loop returned the path or raised;
  \<^item> the only exception that can escape is an \<open>IndexError\<close>, raised by a pass of the loop
    whose current node has a move onto a position that passes the range test and lies beyond
    the end of its own row; this needs a grid that is not rectangular;
  \<^item> a returned path is a constrained path from the start to the goal (unit steps, legal
    turns, every cell after the first free), and the no-path result is returned only when
    there is no constrained path; the start cell itself is never checked, so this is the
    same for a start on a wall or out of bounds as for a free start;
  \<^item> on a rectangular grid a path is returned exactly when a constrained path exists; in
    particular a free goal one unit step from the start gives the path \<open>[start, goal]\<close>
    whatever the start cell is, and a goal that differs from the start and is out of bounds
    or on a wall gives the no-path result.
\<close>

theorem astar_no_validation:
  "(\<exists>r. astar maze start end_pos = Some r \<and> finished maze start end_pos r) \<and>
   (\<forall>err. astar maze start end_pos = Some (Inl err) \<longrightarrow>
      err = IndexError \<and> \<not> rectangular maze \<and>
      (\<exists>ol cl. reachable maze start end_pos ol cl \<and> ol \<noteq> [] \<and>
         astar_iteration maze end_pos ol cl = Raise IndexError \<and>
         (\<exists>d \<in> set (allowed (direction (fst (select_current ol)))).
             raises maze (move (position (fst (select_current ol))) d)))) \<and>
   (\<forall>path. astar maze start end_pos = Some (Inr (Some path)) \<longrightarrow>
      constrained_path maze start end_pos path) \<and>
   (astar maze start end_pos = Some (Inr None) \<longrightarrow>
      (\<forall>q. \<not> constrained_path maze start end_pos q)) \<and>
   (rectangular maze \<longrightarrow>
      ((\<exists>path. astar maze start end_pos = Some (Inr (Some path))) \<longleftrightarrow>
       (\<exists>q. constrained_path maze start end_pos q))) \<and>
   (rectangular maze \<and> unit_step start end_pos \<and> free_cell maze end_pos \<longrightarrow>
      astar maze start end_pos = Some (Inr (Some [start, end_pos]))) \<and>
   (rectangular maze \<and> start \<noteq> end_pos \<and> \<not> free_cell maze end_pos \<longrightarrow>
      astar maze start end_pos = Some (Inr None))"
proof -
  obtain r where r: "astar maze start end_pos = Some r" "finished maze start end_pos r"
    "\<And>err. r = Inl err \<Longrightarrow> err = IndexError \<and> \<not> rectangular maze"
    using astar_result [of maze start end_pos] by blast
  have c1: "\<exists>r. astar maze start end_pos = Some r \<and> finished maze start end_pos r"
    using r(1,2) by blast
  have c2: "\<forall>err. astar maze start end_pos = Some (Inl err) \<longrightarrow>
      err = IndexError \<and> \<not> rectangular maze \<and>
      (\<exists>ol cl. reachable maze start end_pos ol cl \<and> ol \<noteq> [] \<and>
         astar_iteration maze end_pos ol cl = Raise IndexError \<and>
         (\<exists>d \<in> set (allowed (direction (fst (select_current ol)))).
             raises maze (move (position (fst (select_current ol))) d)))"
  proof (intro allI impI)
    fix err assume h: "astar maze start end_pos = Some (Inl err)"
    then have re: "r = Inl err" using r(1) by simp
    then obtain ol cl where oc: "reachable maze start end_pos ol cl" "ol \<noteq> []"
      "astar_iteration maze end_pos ol cl = Raise err"
      using r(2) unfolding finished_def by auto
    have mv: "err = IndexError \<and>
         (\<exists>d \<in> set (allowed (direction (fst (select_current ol)))).
             raises maze (move (position (fst (select_current ol))) d))"
      by (rule iteration_Raise_move [OF oc])
    then have "astar_iteration maze end_pos ol cl = Raise IndexError" using oc(3) by simp
    then show "err = IndexError \<and> \<not> rectangular maze \<and>
      (\<exists>ol cl. reachable maze start end_pos ol cl \<and> ol \<noteq> [] \<and>
         astar_iteration maze end_pos ol cl = Raise IndexError \<and>
         (\<exists>d \<in> set (allowed (direction (fst (select_current ol)))).
             raises maze (move (position (fst (select_current ol))) d)))"
      using mv r(3) [OF re] oc(1,2) by blast
  qed
  have c3: "\<forall>path. astar maze start end_pos = Some (Inr (Some path)) \<longrightarrow>
      constrained_path maze start end_pos path"
    using astar_path_constrained by blast
  have c4: "astar maze start end_pos = Some (Inr None) \<longrightarrow>
      (\<forall>q. \<not> constrained_path maze start end_pos q)"
  proof (intro impI allI)
    fix q assume "astar maze start end_pos = Some (Inr None)"
    then have "r = Inr None" using r(1) by simp
    then obtain cl where "reachable maze start end_pos [] cl"
      using r(2) unfolding finished_def by auto
    then show "\<not> constrained_path maze start end_pos q" by (rule exhausted_no_path)
  qed
  have c5: "rectangular maze \<longrightarrow>
      ((\<exists>path. astar maze start end_pos = Some (Inr (Some path))) \<longleftrightarrow>
       (\<exists>q. constrained_path maze start end_pos q))"
  proof (intro impI iffI)
    assume "\<exists>path. astar maze start end_pos = Some (Inr (Some path))"
    then show "\<exists>q. constrained_path maze start end_pos q" using c3 by blast
  next
    assume rect: "rectangular maze" and ex: "\<exists>q. constrained_path maze start end_pos q"
    show "\<exists>path. astar maze start end_pos = Some (Inr (Some path))"
    proof (cases r)
      case (Inl err)
      then show ?thesis using r(3) rect by blast
    next
      case (Inr x)
      show ?thesis
      proof (cases x)
        case None
        then have "astar maze start end_pos = Some (Inr None)" using r(1) Inr by simp
        then show ?thesis using c4 ex by blast
      next
        case (Some path)
        then show ?thesis using r(1) Inr by blast
      qed
    qed
  qed
  have c6: "rectangular maze \<and> unit_step start end_pos \<and> free_cell maze end_pos \<longrightarrow>
      astar maze start end_pos = Some (Inr (Some [start, end_pos]))"
  proof (intro impI)
    assume h: "rectangular maze \<and> unit_step start end_pos \<and> free_cell maze end_pos"
    then have q: "constrained_path maze start end_pos [start, end_pos]"
      by (simp add: constrained_path_def)
    then obtain path where p: "astar maze start end_pos = Some (Inr (Some path))"
      using c5 h by blast
    have cp: "constrained_path maze start end_pos path" using c3 p by blast
    have le: "length path \<le> length [start, end_pos]"
      by (rule astar_path_minimal [OF p q])
    have ne: "start \<noteq> end_pos" using h by (auto simp: unit_step_def)
    have "path = [start, end_pos]"
    proof (cases path)
      case Nil
      then show ?thesis using cp by (simp add: constrained_path_def)
    next
      case (Cons a rest)
      show ?thesis
      proof (cases rest)
        case Nil
        then show ?thesis using cp Cons ne by (auto simp: constrained_path_def)
      next
        case (Cons b rest')
        then have "rest' = []" using le \<open>path = a # rest\<close> by simp
        then show ?thesis using cp Cons \<open>path = a # rest\<close> by (auto simp: constrained_path_def)
      qed
    qed
    then show "astar maze start end_pos = Some (Inr (Some [start, end_pos]))" using p by simp
  qed
  have c7: "rectangular maze \<and> start \<noteq> end_pos \<and> \<not> free_cell maze end_pos \<longrightarrow>
      astar maze start end_pos = Some (Inr None)"
  proof (intro impI)
    assume h: "rectangular maze \<and> start \<noteq> end_pos \<and> \<not> free_cell maze end_pos"
    show "astar maze start end_pos = Some (Inr None)"
    proof (cases r)
      case (Inl err)
      then show ?thesis using r(3) h by blast
    next
      case (Inr x)
      show ?thesis
      proof (cases x)
        case None
        then show ?thesis using r(1) Inr by simp
      next
        case (Some path)
        then have "astar maze start end_pos = Some (Inr (Some path))" using r(1) Inr by simp
        from astar_path_goal_free [OF this] h show ?thesis by blast
      qed
    qed
  qed
  show ?thesis by (intro conjI c1 c2 c3 c4 c5 c6 c7)
qed

theorem astar_no_validation_witness:
  "rectangular [[0, 1]] \<and> (0, 0) \<noteq> ((0, 1) :: pos) \<and> \<not> free_cell [[0, 1]] (0, 1) \<and>
   astar [[0, 1]] (0, 0) (0, 1) = Some (Inr None) \<and>
   \<not> constrained_path [[0, 1]] (0, 0) (0, 1) [(0, 0), (0, 1)] \<and>
   astar [[0, 0], [0]] (0, 0) (1, 1) = Some (Inl IndexError) \<and> \<not> rectangular [[0, 0], [0]] \<and>
   astar [[0], [0, 0]] (0, 0) (1, 0) = Some (Inr (Some [(0, 0), (1, 0)])) \<and>
   \<not> rectangular [[0], [0, 0]] \<and>
   constrained_path [[0], [0, 0]] (0, 0) (1, 0) [(0, 0), (1, 0)] \<and>
   rectangular [[1, 0]] \<and> unit_step (0, 0) (0, 1) \<and> free_cell [[1, 0]] (0, 1) \<and>
   \<not> free_cell [[1, 0]] (0, 0) \<and>
   astar [[1, 0]] (0, 0) (0, 1) = Some (Inr (Some [(0, 0), (0, 1)])) \<and>
   astar [[1, 0]] (0, -1) (0, 0) = Some (Inr None)"
proof -
  have h1: "rectangular [[0, 1]]" by (simp add: rectangular_def)
  have h2: "(0, 0) \<noteq> ((0, 1) :: pos)" by simp
  have h3: "\<not> free_cell [[0, 1]] (0, 1)" by (simp add: free_cell_def in_bounds_def)
  have a: "astar [[0, 1]] (0, 0) (0, 1) = Some (Inr None)"
    using astar_no_validation [of "[[0, 1]]" "(0, 0)" "(0, 1)"] h1 h2 h3 by blast
  have a': "\<not> constrained_path [[0, 1]] (0, 0) (0, 1) [(0, 0), (0, 1)]"
    using astar_no_validation [of "[[0, 1]]" "(0, 0)" "(0, 1)"] a by blast
  have e: "astar [[0, 0], [0]] (0, 0) (1, 1) = Some (Inl IndexError)" by code_simp
  have e': "\<not> rectangular [[0, 0], [0]]"
    using astar_no_validation [of "[[0, 0], [0]]" "(0, 0)" "(1, 1)"] e by blast
  have n: "astar [[0], [0, 0]] (0, 0) (1, 0) = Some (Inr (Some [(0, 0), (1, 0)]))" by code_simp
  have n1: "\<not> rectangular [[0], [0, 0]]" by (simp add: rectangular_def)
  have n2: "constrained_path [[0], [0, 0]] (0, 0) (1, 0) [(0, 0), (1, 0)]"
    using astar_no_validation [of "[[0], [0, 0]]" "(0, 0)" "(1, 0)"] n by blast
  have w1: "rectangular [[1, 0]]" by (simp add: rectangular_def)
  have w2: "unit_step (0, 0) (0, 1)" by (simp add: unit_step_def)
  have w3: "free_cell [[1, 0]] (0, 1)" by (simp add: free_cell_def in_bounds_def)
  have w4: "\<not> free_cell [[1, 0]] (0, 0)" by (simp add: free_cell_def in_bounds_def)
  have w: "astar [[1, 0]] (0, 0) (0, 1) = Some (Inr (Some [(0, 0), (0, 1)]))"
    using astar_no_validation [of "[[1, 0]]" "(0, 0)" "(0, 1)"] w1 w2 w3 by blast
  have o1: "(0, -1) \<noteq> ((0, 0) :: pos)" by simp
  have o: "astar [[1, 0]] (0, -1) (0, 0) = Some (Inr None)"
    using astar_no_validation [of "[[1, 0]]" "(0, -1)" "(0, 0)"] w1 w4 o1 by blast
  show ?thesis by (intro conjI h1 h2 h3 a a' e e' n n1 n2 w1 w2 w3 w4 w o)
qed

theorem astar_accepts_wall_start:
  "invalid_input [[0, 1]] (0, 1) (0, 0) \<and>
   astar [[0, 1]] (0, 1) (0, 0) = Some (Inr (Some [(0, 1), (0, 0)])) \<and>
   \<not> rejected (astar [[0, 1]] (0, 1) (0, 0))"
proof -
  have 1: "invalid_input [[0, 1]] (0, 1) (0, 0)"
    by (simp add: invalid_input_def free_cell_def in_bounds_def)
  have 2: "astar [[0, 1]] (0, 1) (0, 0) = Some (Inr (Some [(0, 1), (0, 0)]))" by code_simp
  then have 3: "\<not> rejected (astar [[0, 1]] (0, 1) (0, 0))" by (simp add: rejected_def)
  from 1 2 3 show ?thesis by blast
qed

text \<open>
  \<^bold>\<open>C4\<close> (a closed state is never expanded again). The closed list is the sequence of
  the nodes popped so far: each pass of the loop that continues appends the popped node to
  it. At every pass of a run of \<open>astar\<close>, the states (position, direction) in the closed
  list are pairwise distinct, no open node has a closed state, and the node about to be
  popped has a state that is not in the closed list. So no state is popped twice.
\<close>

theorem closed_state_never_expanded_again:
  assumes "reachable maze start end_pos open_list closed_list"
  shows "distinct (map state_of closed_list) \<and>
         state_of ` set open_list \<inter> state_of ` set closed_list = {} \<and>
         (open_list \<noteq> [] \<longrightarrow>
            state_of (fst (select_current open_list)) \<notin> state_of ` set closed_list) \<and>
         (\<forall>open_list' closed_list'.
            astar_iteration maze end_pos open_list closed_list = Continue open_list' closed_list'
            \<longrightarrow> closed_list' = closed_list @ [fst (select_current open_list)])"
proof -
  have d: "distinct (map state_of (open_list @ closed_list))"
    using search_invD(3) [OF reachable_inv [OF assms]] .
  then have 1: "distinct (map state_of closed_list)"
    and 2: "state_of ` set open_list \<inter> state_of ` set closed_list = {}" by auto
  have 3: "state_of (fst (select_current open_list)) \<notin> state_of ` set closed_list"
    if "open_list \<noteq> []"
    using select_current_mem [OF that] 2 by blast
  have 4: "closed_list' = closed_list @ [fst (select_current open_list)]"
    if "astar_iteration maze end_pos open_list closed_list = Continue open_list' closed_list'"
    for open_list' closed_list'
    using that by (rule iteration_Continue) simp
  show ?thesis using 1 2 3 4 by blast
qed

theorem closed_state_never_expanded_again_witness:
  "reachable [[0, 0, 0]] (0, 0) (0, 2)
     [Node (Some (Node None (0, 0) None 0 0 0)) (0, 1) (Some (0, 1)) 1 1 2]
     [Node None (0, 0) None 0 0 0] \<and>
   distinct (map state_of [Node None (0, 0) None 0 0 0]) \<and>
   state_of (fst (select_current
       [Node (Some (Node None (0, 0) None 0 0 0)) (0, 1) (Some (0, 1)) 1 1 2]))
     \<notin> state_of ` set [Node None (0, 0) None 0 0 0]"
proof -
  have it: "astar_iteration [[0, 0, 0]] (0, 2) [start_node (0, 0)] [] =
      Continue [Node (Some (Node None (0, 0) None 0 0 0)) (0, 1) (Some (0, 1)) 1 1 2]
               [Node None (0, 0) None 0 0 0]"
    by code_simp
  have r: "reachable [[0, 0, 0]] (0, 0) (0, 2)
     [Node (Some (Node None (0, 0) None 0 0 0)) (0, 1) (Some (0, 1)) 1 1 2]
     [Node None (0, 0) None 0 0 0]"
    by (rule reachable.step [OF reachable.init _ it]) simp
  from closed_state_never_expanded_again [OF r] r show ?thesis by blast
qed

text \<open>
  \<^bold>\<open>C5\<close> (termination). On every rectangular grid, whatever the start and the goal,
  \<open>astar\<close> returns: the result is a path or the no-path result, never an exception and
  never a loop that runs forever. The number of passes is bounded by the number of states:
  at every pass the open and closed lists together hold at most
  \<open>4 * rows * columns + 1\<close> nodes, and the closed list grows by one node per pass.
\<close>

theorem astar_terminates:
  assumes "rectangular maze"
  shows "(\<exists>r. astar maze start end_pos = Some (Inr r)) \<and>
         (\<forall>ol cl. reachable maze start end_pos ol cl \<longrightarrow>
            length ol + length cl \<le> 4 * length maze * length (maze ! 0) + 1)"
proof -
  obtain r where r: "astar maze start end_pos = Some r"
    "\<And>err. r = Inl err \<Longrightarrow> err = IndexError \<and> \<not> rectangular maze"
    using astar_result [of maze start end_pos] by blast
  have "\<exists>x. r = Inr x" using r(2) assms by (cases r) auto
  then have 1: "\<exists>r. astar maze start end_pos = Some (Inr r)" using r(1) by auto
  have 2: "length ol + length cl \<le> 4 * length maze * length (maze ! 0) + 1"
    if "reachable maze start end_pos ol cl" for ol cl
    using search_inv_bound [OF reachable_inv [OF that]] card_state_space [of maze start]
    by linarith
  show ?thesis using 1 2 by blast
qed

theorem astar_terminates_witness:
  "rectangular [[0, 1], [1, 0]] \<and>
   astar [[0, 1], [1, 0]] (0, 0) (1, 1) = Some (Inr None) \<and>
   reachable [[0, 1], [1, 0]] (0, 0) (1, 1) [start_node (0, 0)] [] \<and>
   length [start_node (0, 0)] + length ([] :: node list)
     \<le> 4 * length [[0, 1], [1, 0 :: int]] * length ([[0, 1], [1, 0 :: int]] ! 0) + 1"
proof -
  have h: "rectangular [[0, 1], [1, 0]]" by (simp add: rectangular_def)
  have r: "reachable [[0, 1], [1, 0]] (0, 0) (1, 1) [start_node (0, 0)] []"
    by (rule reachable.init)
  have a: "astar [[0, 1], [1, 0]] (0, 0) (1, 1) = Some (Inr None)" by code_simp
  from astar_terminates [OF h, of "(0, 0)" "(1, 1)"] r
  have "length [start_node (0, 0)] + length ([] :: node list)
     \<le> 4 * length [[0, 1], [1, 0 :: int]] * length ([[0, 1], [1, 0 :: int]] ! 0) + 1"
    by blast
  with h a r show ?thesis by blast
qed

text \<open>
  \<^bold>\<open>C6\<close> (start equals goal). When the start is the goal, \<open>astar\<close> returns the
  one-element path \<open>[start]\<close>, which has zero moves and is not the no-path result. This
  holds for every grid and every coordinate, a free in-bounds cell included.
\<close>

theorem astar_start_is_goal:
  "astar maze start start = Some (Inr (Some [start])) \<and>
   astar maze start start \<noteq> Some (Inr None) \<and> length [start] - 1 = 0"
proof -
  have "select_current [start_node start] = (start_node start, 0)"
    by (simp add: select_current_def)
  then have "astar_iteration maze start [start_node start] [] = Return [start]"
    by (simp add: astar_iteration_def start_node_def)
  then have "astar maze start start = Some (Inr (Some [start]))"
    unfolding astar_def by (subst astar_loop.simps) simp
  then show ?thesis by simp
qed

text \<open>
  \<^bold>\<open>C7\<close> (selection). The node removed from a non-empty open list is at an index in
  range, has the least \<open>f\<close> of all entries, and every entry before it has a strictly
  larger \<open>f\<close>: among the entries of least \<open>f\<close> it is the first. A pass of the loop that
  continues takes exactly that entry out of the open list and puts it at the end of the
  closed list; the entries before it and after it stay, in their order, and the new nodes
  come after them. So the open list is in insertion order, and the first entry of least
  \<open>f\<close> is the one inserted earliest.
\<close>

theorem select_current_first_minimum:
  assumes "open_list \<noteq> []" "select_current open_list = (current_node, current_index)"
  shows "current_index < length open_list \<and> current_node = open_list ! current_index \<and>
         (\<forall>j < length open_list. fcost current_node \<le> fcost (open_list ! j)) \<and>
         (\<forall>j < current_index. fcost current_node < fcost (open_list ! j)) \<and>
         (\<forall>maze end_pos closed_list open_list' closed_list'.
            astar_iteration maze end_pos open_list closed_list = Continue open_list' closed_list'
            \<longrightarrow>
              closed_list' = closed_list @ [current_node] \<and>
              (\<exists>added.
                 open_list' = take current_index open_list @
                              drop (Suc current_index) open_list @ added \<and>
                 length open_list' = length open_list - 1 + length added))"
proof -
  have sel: "current_index < length open_list" "current_node = open_list ! current_index"
    "\<forall>j < length open_list. fcost current_node \<le> fcost (open_list ! j)"
    "\<forall>j < current_index. fcost current_node < fcost (open_list ! j)"
    using select_current_props [OF assms] by blast+
  have pass: "closed_list' = closed_list @ [current_node] \<and>
              (\<exists>added.
                 open_list' = take current_index open_list @
                              drop (Suc current_index) open_list @ added \<and>
                 length open_list' = length open_list - 1 + length added)"
    if it: "astar_iteration maze end_pos open_list closed_list = Continue open_list' closed_list'"
    for maze end_pos closed_list open_list' closed_list'
  proof -
    from it obtain cur i where s: "select_current open_list = (cur, i)"
      and cl': "closed_list' = closed_list @ [cur]"
      and ol': "open_list' = process_children end_pos cur (closed_list @ [cur])
             (map (mk_child cur)
                (filter (\<lambda>d. free_cell maze (move (position cur) d)) (allowed (direction cur))))
             (pop_at i open_list)"
      by (rule iteration_Continue)
    have eq: "i = current_index" "cur = current_node" using s assms(2) by simp_all
    obtain added where ad: "open_list' = pop_at current_index open_list @ added"
      using process_children_prefix ol' eq by blast
    have 1: "open_list' = take current_index open_list @
                          drop (Suc current_index) open_list @ added"
      using ad by (simp add: pop_at_def)
    have 2: "length open_list' = length open_list - 1 + length added"
      using 1 sel(1) by simp
    show ?thesis using cl' eq(2) 1 2 by blast
  qed
  show ?thesis using sel pass by blast
qed

theorem select_current_first_minimum_witness:
  "[Node (Some (Node None (0, 0) None 0 0 0)) (0, 1) (Some (0, 1)) 1 1 2,
    Node (Some (Node None (0, 0) None 0 0 0)) (1, 0) (Some (1, 0)) 1 1 2] \<noteq> [] \<and>
   select_current
     [Node (Some (Node None (0, 0) None 0 0 0)) (0, 1) (Some (0, 1)) 1 1 2,
      Node (Some (Node None (0, 0) None 0 0 0)) (1, 0) (Some (1, 0)) 1 1 2]
     = (Node (Some (Node None (0, 0) None 0 0 0)) (0, 1) (Some (0, 1)) 1 1 2, 0) \<and>
   astar_iteration [[0, 0], [0, 0]] (1, 1)
     [Node (Some (Node None (0, 0) None 0 0 0)) (0, 1) (Some (0, 1)) 1 1 2,
      Node (Some (Node None (0, 0) None 0 0 0)) (1, 0) (Some (1, 0)) 1 1 2]
     [Node None (0, 0) None 0 0 0]
     = Continue
         [Node (Some (Node None (0, 0) None 0 0 0)) (1, 0) (Some (1, 0)) 1 1 2,
          Node (Some (Node (Some (Node None (0, 0) None 0 0 0)) (0, 1) (Some (0, 1)) 1 1 2))
            (1, 1) (Some (1, 0)) 2 0 2]
         [Node None (0, 0) None 0 0 0,
          Node (Some (Node None (0, 0) None 0 0 0)) (0, 1) (Some (0, 1)) 1 1 2] \<and>
   [Node None (0, 0) None 0 0 0,
    Node (Some (Node None (0, 0) None 0 0 0)) (0, 1) (Some (0, 1)) 1 1 2]
     = [Node None (0, 0) None 0 0 0] @
       [Node (Some (Node None (0, 0) None 0 0 0)) (0, 1) (Some (0, 1)) 1 1 2] \<and>
   length [Node (Some (Node None (0, 0) None 0 0 0)) (1, 0) (Some (1, 0)) 1 1 2,
           Node (Some (Node (Some (Node None (0, 0) None 0 0 0)) (0, 1) (Some (0, 1)) 1 1 2))
             (1, 1) (Some (1, 0)) 2 0 2]
     = 2"
proof -
  let ?s = "Node None (0, 0) None 0 0 0"
  let ?a = "Node (Some ?s) (0, 1) (Some (0, 1)) 1 1 2"
  let ?b = "Node (Some ?s) (1, 0) (Some (1, 0)) 1 1 2"
  let ?c = "Node (Some ?a) (1, 1) (Some (1, 0)) 2 0 2"
  have h1: "[?a, ?b] \<noteq> []" by simp
  have h2: "select_current [?a, ?b] = (?a, 0)" by code_simp
  have it: "astar_iteration [[0, 0], [0, 0]] (1, 1) [?a, ?b] [?s] = Continue [?b, ?c] [?s, ?a]"
    by code_simp
  from select_current_first_minimum [OF h1 h2] it
  have cl: "[?s, ?a] = [?s] @ [?a]"
    and "\<exists>added. [?b, ?c] = take 0 [?a, ?b] @ drop (Suc 0) [?a, ?b] @ added \<and>
           length [?b, ?c] = length [?a, ?b] - 1 + length added"
    by blast+
  then have "length [?b, ?c] = 2" by simp
  with h1 h2 it cl show ?thesis by blast
qed

text \<open>
  \<^bold>\<open>C8\<close> (successor moves). From the start node, whose direction is \<open>None\<close>, the
  moves tried are the four directions in the order Up, Right, Down, Left. From a node with
  direction \<open>h\<close> they are \<open>h\<close> followed by the right turn of \<open>h\<close>, where the right turn
  is the cycle Up, Right, Down, Left, Up.
\<close>

theorem possible_moves_contract:
  "possible_moves None = Inr [UP, RIGHT, DOWN, LEFT] \<and>
   possible_moves (Some UP) = Inr [UP, RIGHT] \<and>
   possible_moves (Some RIGHT) = Inr [RIGHT, DOWN] \<and>
   possible_moves (Some DOWN) = Inr [DOWN, LEFT] \<and>
   possible_moves (Some LEFT) = Inr [LEFT, UP] \<and>
   turn_right_map UP = Some RIGHT \<and> turn_right_map RIGHT = Some DOWN \<and>
   turn_right_map DOWN = Some LEFT \<and> turn_right_map LEFT = Some UP \<and>
   dom turn_right_map = {UP, RIGHT, DOWN, LEFT}"
  by (auto simp: possible_moves_def turn_right_lookup_def turn_right_map_def DIRECTIONS_def
        UP_def RIGHT_def DOWN_def LEFT_def)

text \<open>
  \<^bold>\<open>C9\<close> (the two files agree). The \<open>astar\<close> of \<open>maze_solution_group_eltonys.py\<close>
  and the \<open>astar\<close> of \<open>solution1.py\<close> give the same result on every maze, start and goal:
  the same path, the same no-path result, or the same exception.
\<close>

theorem astar_files_agree: "astar_eltonys maze start end_pos = astar maze start end_pos"
proof (cases "astar_loop maze end_pos [start_node start] []")
  case None
  have "astar_loop_eltonys maze end_pos [start_node start] [] = None"
  proof (cases "astar_loop_eltonys maze end_pos [start_node start] []")
    case (Some y)
    from loop_from_eltonys [OF this] show ?thesis using None by simp
  qed simp
  then show ?thesis using None by (simp add: astar_def astar_eltonys_def)
next
  case (Some y)
  from loop_to_eltonys [OF this] show ?thesis using Some by (simp add: astar_def astar_eltonys_def)
qed

text \<open>
  \<^bold>\<open>C10\<close> (cells of a returned path). In every path returned by \<open>astar\<close>, every
  coordinate after the first is within the grid bounds and on a free cell. The first
  coordinate, the start, is never checked: a start on a wall and a start out of bounds both
  appear in returned paths.
\<close>

theorem astar_path_cells:
  "(astar maze start end_pos = Some (Inr (Some path)) \<longrightarrow> list_all (free_cell maze) (tl path)) \<and>
   (astar [[1, 0]] (0, 0) (0, 1) = Some (Inr (Some [(0, 0), (0, 1)])) \<and>
      in_bounds [[1, 0]] (0, 0) \<and> \<not> free_cell [[1, 0]] (0, 0)) \<and>
   (astar [[0]] (0, -1) (0, 0) = Some (Inr (Some [(0, -1), (0, 0)])) \<and>
      \<not> in_bounds [[0]] (0, -1))"
proof -
  have 1: "list_all (free_cell maze) (tl path)"
    if h: "astar maze start end_pos = Some (Inr (Some path))"
  proof -
    from h obtain cur where cur: "path = rev (trace_back cur)"
      "chain_ok maze start end_pos cur"
      by (rule astar_path_node)
    show ?thesis using chain_path [OF cur(2)] cur(1) by simp
  qed
  have 2: "astar [[1, 0]] (0, 0) (0, 1) = Some (Inr (Some [(0, 0), (0, 1)]))" by code_simp
  have 3: "in_bounds [[1, 0]] (0, 0) \<and> \<not> free_cell [[1, 0]] (0, 0)"
    by (simp add: in_bounds_def free_cell_def)
  have 4: "astar [[0]] (0, -1) (0, 0) = Some (Inr (Some [(0, -1), (0, 0)]))" by code_simp
  have 5: "\<not> in_bounds [[0]] (0, -1)" by (simp add: in_bounds_def)
  show ?thesis using 1 2 3 4 5 by blast
qed

theorem astar_path_cells_witness:
  "astar [[0, 0], [1, 0]] (0, 0) (1, 1) = Some (Inr (Some [(0, 0), (0, 1), (1, 1)])) \<and>
   list_all (free_cell [[0, 0], [1, 0]]) (tl [(0, 0), (0, 1), (1, 1)])"
proof -
  have h: "astar [[0, 0], [1, 0]] (0, 0) (1, 1) = Some (Inr (Some [(0, 0), (0, 1), (1, 1)]))"
    by code_simp
  from astar_path_cells [of "[[0, 0], [1, 0]]" "(0, 0)" "(1, 1)" "[(0, 0), (0, 1), (1, 1)]"] h
  show ?thesis by blast
qed

end
